theory Spec2Isabelle
  imports Main "HOL-Library.Word"
begin

section \<open>Tokens, instructions and symbols\<close>

text \<open>
  The enumerations of \<^verbatim>\<open>token.h\<close>, \<^verbatim>\<open>data.h\<close> and \<^verbatim>\<open>symbol.h\<close> are not among the
  sources; the generator only names their members, so each enumeration is a datatype
  holding the members that \<^verbatim>\<open>code_generator.c\<close> uses.
\<close>

datatype token_type =
    nulsym | identsym | numbersym | plussym | minussym | multsym | slashsym | oddsym
  | eqsym | neqsym | lessym | leqsym | gtrsym | geqsym | lparentsym | rparentsym
  | commasym | semicolonsym | periodsym | becomessym | beginsym | endsym | ifsym
  | thensym | whilesym | dosym | callsym | constsym | varsym | procsym | writesym
  | readsym | elsesym

record Token =
  id_tok :: token_type
  lexeme :: string

datatype opcode =
    LIT | RTN | LOD | STO | CAL | INC | JMP | JPC | SIO_WRITE | SIO_READ | SIO_HALT
  | NEG | ADD | SUB | MUL | DIV | ODD | EQL | NEQ | LSS | LEQ | GTR | GEQ

record Instruction =
  op :: opcode
  r :: int
  l :: int
  m :: int

text \<open>\<^verbatim>\<open>CONST\<close> is written \<open>CONST'\<close>: the plain name is reserved by the term syntax.\<close>

datatype symbol_type = CONST' | VAR | PROC

text \<open>
  A \<^verbatim>\<open>Symbol*\<close> is an address in the store of allocated symbols, \<open>None\<close> being the
  null pointer. \<^verbatim>\<open>level\<close> is an \<^verbatim>\<open>unsigned int\<close>.
\<close>

record Symbol =
  name :: string
  type :: symbol_type
  level :: "32 word"
  scope :: "nat option"
  "value" :: int
  address :: int

section \<open>The state of the generator\<close>

text \<open>
  Every write to \<^verbatim>\<open>vmCode\<close> is recorded in \<open>vm_log\<close>: the emission of an instruction
  at an address, or the overwriting of the \<^verbatim>\<open>m\<close> field of the instruction at an
  address. The log is never read by the generator.
\<close>

datatype vm_write = Emitted nat Instruction | Backpatched nat int

text \<open>
  The global variables of \<^verbatim>\<open>code_generator.c\<close>. \<open>tokenList\<close> and \<open>currentTokenInd\<close>
  are the fields of \<^verbatim>\<open>_token_list_it\<close>. \<open>vmCode\<close> is the array
  \<^verbatim>\<open>Instruction vmCode[MAX_CODE_LENGTH]\<close>, so its length is \<^verbatim>\<open>MAX_CODE_LENGTH\<close>.
  \<open>heap\<close> gives the contents of every \<^verbatim>\<open>malloc(sizeof(Symbol))\<close> block, allocated or
  not: the block at an address not yet allocated holds what \<^verbatim>\<open>malloc\<close> will hand out
  there, which the C code does not initialise. \<open>heap_top\<close> is the address the next
  \<^verbatim>\<open>malloc\<close> returns.
\<close>

record cg_state =
  tokenList :: "Token list"
  currentTokenInd :: nat
  currentLevel :: "32 word"
  currentScope :: "nat option"
  symbolTable :: "Symbol list"
  vmCode :: "Instruction list"
  nextCodeIndex :: nat
  heap :: "nat \<Rightarrow> Symbol"
  heap_top :: nat
  currentReg :: int
  vm_log :: "vm_write list"

text \<open>
  What ends a run without a return value: \<^verbatim>\<open>exit(0)\<close> in \<^verbatim>\<open>emit\<close>, the dereference
  of a null \<^verbatim>\<open>Symbol*\<close>, a write outside \<^verbatim>\<open>vmCode\<close>, and the recursion bound of the
  model being used up.
\<close>

datatype fault = Process_exit | Null_dereference | Out_of_bounds | Out_of_fuel

definition MAX_CODE_LENGTH :: "cg_state \<Rightarrow> nat" where
  "MAX_CODE_LENGTH s = length (vmCode s)"

text \<open>Sequencing: a call whose result is used, and \<^verbatim>\<open>err = f(); if(err != 0) return err;\<close>.\<close>

definition bind_r :: "fault + ('a \<times> cg_state) \<Rightarrow> ('a \<Rightarrow> cg_state \<Rightarrow> fault + 'b) \<Rightarrow> fault + 'b" where
  "bind_r x f = (case x of Inl e \<Rightarrow> Inl e | Inr (a, s) \<Rightarrow> f a s)"

definition on_ok :: "fault + (int \<times> cg_state) \<Rightarrow> (cg_state \<Rightarrow> fault + (int \<times> cg_state))
    \<Rightarrow> fault + (int \<times> cg_state)" where
  "on_ok x k = (case x of Inl e \<Rightarrow> Inl e
     | Inr (err, s) \<Rightarrow> if err \<noteq> 0 then Inr (err, s) else k s)"

section \<open>Helper functions\<close>

text \<open>
  Modelled from the spec: \<^verbatim>\<open>getCurrentTokenFromIterator\<close> of \<^verbatim>\<open>token.h\<close> is missing;
  the token at the cursor, or a token with id \<open>nulsym\<close> past the last element.
\<close>

definition getCurrentToken :: "cg_state \<Rightarrow> Token" where
  "getCurrentToken s =
     (if currentTokenInd s < length (tokenList s) then tokenList s ! currentTokenInd s
      else \<lparr>id_tok = nulsym, lexeme = []\<rparr>)"

definition getCurrentTokenType :: "cg_state \<Rightarrow> token_type" where
  "getCurrentTokenType s = id_tok (getCurrentToken s)"

definition nextToken :: "cg_state \<Rightarrow> cg_state" where
  "nextToken s = s\<lparr>currentTokenInd := Suc (currentTokenInd s)\<rparr>"

definition emit :: "opcode \<Rightarrow> int \<Rightarrow> int \<Rightarrow> int \<Rightarrow> cg_state \<Rightarrow> fault + (nat \<times> cg_state)" where
  "emit OP R L M s =
     (if nextCodeIndex s = MAX_CODE_LENGTH s then Inl Process_exit
      else if MAX_CODE_LENGTH s < nextCodeIndex s then Inl Out_of_bounds
      else Inr (nextCodeIndex s,
        s\<lparr>vmCode := (vmCode s)[nextCodeIndex s := \<lparr>op = OP, r = R, l = L, m = M\<rparr>],
          nextCodeIndex := Suc (nextCodeIndex s),
          vm_log := vm_log s @ [Emitted (nextCodeIndex s) \<lparr>op = OP, r = R, l = L, m = M\<rparr>]\<rparr>))"

text \<open>\<^verbatim>\<open>vmCode[a].m = v\<close>\<close>

definition backpatch :: "nat \<Rightarrow> int \<Rightarrow> cg_state \<Rightarrow> cg_state" where
  "backpatch a v s =
     s\<lparr>vmCode := (vmCode s)[a := (vmCode s ! a)\<lparr>m := v\<rparr>],
       vm_log := vm_log s @ [Backpatched a v]\<rparr>"

definition printEmittedCodes :: "cg_state \<Rightarrow> Instruction list" where
  "printEmittedCodes s = take (nextCodeIndex s) (vmCode s)"

text \<open>
  The C library's \<^verbatim>\<open>atoi\<close>, whose result the source stores in an \<^verbatim>\<open>int\<close> of 32
  bits: leading white space, an optional sign, then decimal digits. A value outside
  \<^verbatim>\<open>int\<close> is undefined in C; here it is what the GNU C library gives on a platform
  with a \<^verbatim>\<open>long\<close> of 64 bits, where \<^verbatim>\<open>atoi\<close> is \<^verbatim>\<open>strtol\<close>, which stops at the
  least and the greatest \<^verbatim>\<open>long\<close>, converted to \<^verbatim>\<open>int\<close>.
\<close>

definition digit_val :: "char \<Rightarrow> nat option" where
  "digit_val c = (let k = (of_char c :: nat) in if 48 \<le> k \<and> k \<le> 57 then Some (k - 48) else None)"

definition isspace :: "char \<Rightarrow> bool" where
  "isspace c = (let k = (of_char c :: nat) in k = 32 \<or> (9 \<le> k \<and> k \<le> 13))"

fun strtol_digits :: "int \<Rightarrow> string \<Rightarrow> int" where
  "strtol_digits acc [] = acc"
| "strtol_digits acc (c # cs) =
     (case digit_val c of None \<Rightarrow> acc | Some d \<Rightarrow> strtol_digits (10 * acc + int d) cs)"

fun strtol_value :: "string \<Rightarrow> int" where
  "strtol_value [] = 0"
| "strtol_value (c # cs) =
     (if isspace c then strtol_value cs
      else if c = CHR ''-'' then - strtol_digits 0 cs
      else if c = CHR ''+'' then strtol_digits 0 cs
      else strtol_digits 0 (c # cs))"

definition strtol :: "string \<Rightarrow> int" where
  "strtol cs = max (- (2 ^ 63)) (min (2 ^ 63 - 1) (strtol_value cs))"

definition atoi :: "string \<Rightarrow> int" where
  "atoi cs = sint (word_of_int (strtol cs) :: 32 word)"

subsection \<open>The symbol table\<close>

text \<open>
  Modelled from the spec: \<^verbatim>\<open>initSymbolTable\<close>, \<^verbatim>\<open>addSymbol\<close>, \<^verbatim>\<open>findSymbol\<close> and
  \<^verbatim>\<open>deleteSymbolTable\<close> of \<^verbatim>\<open>symbol.h\<close> are missing. Insertion appends a copy of the
  symbol and never fails or deduplicates. Lookup returns the symbol of that name
  visible from the scope: the latest one declared in the scope itself, else in the
  nearest enclosing scope that has one, else none.
\<close>

definition addSymbol :: "Symbol \<Rightarrow> cg_state \<Rightarrow> cg_state" where
  "addSymbol newSym s = s\<lparr>symbolTable := symbolTable s @ [newSym]\<rparr>"

definition lookup_in :: "Symbol list \<Rightarrow> nat option \<Rightarrow> string \<Rightarrow> Symbol option" where
  "lookup_in tab sc nm = List.find (\<lambda>e. name e = nm \<and> scope e = sc) (rev tab)"

primrec findSymbol_from :: "nat \<Rightarrow> (nat \<Rightarrow> Symbol) \<Rightarrow> Symbol list \<Rightarrow> nat option \<Rightarrow> string
    \<Rightarrow> Symbol option" where
  "findSymbol_from 0 hp tab sc nm = lookup_in tab sc nm"
| "findSymbol_from (Suc k) hp tab sc nm =
     (case lookup_in tab sc nm of
        Some e \<Rightarrow> Some e
      | None \<Rightarrow> (case sc of None \<Rightarrow> None
                 | Some a \<Rightarrow> findSymbol_from k hp tab (scope (hp a)) nm))"

text \<open>A chain of enclosing scopes is no longer than the number of allocated symbols.\<close>

definition findSymbol :: "cg_state \<Rightarrow> nat option \<Rightarrow> string \<Rightarrow> Symbol option" where
  "findSymbol s sc nm = findSymbol_from (heap_top s) (heap s) (symbolTable s) sc nm"

text \<open>\<^verbatim>\<open>p->field = v\<close> on an allocated symbol.\<close>

definition heap_upd :: "nat \<Rightarrow> (Symbol \<Rightarrow> Symbol) \<Rightarrow> cg_state \<Rightarrow> cg_state" where
  "heap_upd p f s = s\<lparr>heap := (heap s)(p := f (heap s p))\<rparr>"

text \<open>\<^verbatim>\<open>malloc(sizeof(Symbol))\<close>; the source does not test the result for null.\<close>

definition malloc_Symbol :: "cg_state \<Rightarrow> nat \<times> cg_state" where
  "malloc_Symbol s = (heap_top s, s\<lparr>heap_top := Suc (heap_top s)\<rparr>)"

section \<open>The grammar productions\<close>

text \<open>
  The \<^verbatim>\<open>do ... while\<close> loop of \<^verbatim>\<open>const_declaration\<close>: one round per call, the
  next round when a comma follows.
\<close>

function const_declaration :: "cg_state \<Rightarrow> fault + (int \<times> cg_state)" where
  "const_declaration s =
     (case malloc_Symbol s of (newSym, s0) \<Rightarrow>
      let s1 = nextToken (heap_upd newSym
                 (\<lambda>b. b\<lparr>type := CONST', level := currentLevel s0, scope := currentScope s0\<rparr>) s0)
      in if getCurrentTokenType s1 \<noteq> identsym then Inr (3, s1)
      else let s2 = nextToken (heap_upd newSym (\<lambda>b. b\<lparr>name := lexeme (getCurrentToken s1)\<rparr>) s1)
      in if getCurrentTokenType s2 \<noteq> eqsym then Inr (2, s2)
      else let s3 = nextToken s2
      in if getCurrentTokenType s3 \<noteq> numbersym then Inr (1, s3)
      else let s4 = heap_upd newSym (\<lambda>b. b\<lparr>value := atoi (lexeme (getCurrentToken s3))\<rparr>) s3;
               s5 = nextToken (addSymbol (heap s4 newSym) s4)
      in if getCurrentTokenType s5 = commasym then const_declaration s5
      else if getCurrentTokenType s5 \<noteq> semicolonsym then Inr (10, s5)
      else Inr (0, nextToken s5))"
  by pat_completeness auto
termination
  by (relation "measure (\<lambda>s. length (tokenList s) - currentTokenInd s)")
     (auto simp: malloc_Symbol_def heap_upd_def nextToken_def addSymbol_def
        getCurrentTokenType_def getCurrentToken_def Let_def split: if_splits)

function var_declaration :: "cg_state \<Rightarrow> fault + (int \<times> cg_state)" where
  "var_declaration s =
     (case malloc_Symbol s of (newSym, s0) \<Rightarrow>
      let s1 = nextToken (heap_upd newSym
                 (\<lambda>b. b\<lparr>type := VAR, level := currentLevel s0, scope := currentScope s0,
                         address := int (nextCodeIndex s0)\<rparr>) s0)
      in if getCurrentTokenType s1 \<noteq> identsym then Inr (3, s1)
      else let s2 = heap_upd newSym (\<lambda>b. b\<lparr>name := lexeme (getCurrentToken s1)\<rparr>) s1
      in (case emit INC 0 0 1 (addSymbol (heap s2 newSym) s2) of
            Inl e \<Rightarrow> Inl e
          | Inr (_, s3) \<Rightarrow>
              (let s4 = nextToken s3
               in if getCurrentTokenType s4 = commasym then var_declaration s4
               else if getCurrentTokenType s4 \<noteq> semicolonsym then Inr (4, s4)
               else Inr (0, nextToken s4))))"
  by pat_completeness auto
termination
  by (relation "measure (\<lambda>s. length (tokenList s) - currentTokenInd s)")
     (auto simp: malloc_Symbol_def heap_upd_def nextToken_def addSymbol_def emit_def
        getCurrentTokenType_def getCurrentToken_def Let_def split: if_splits)

text \<open>
  The productions that call each other take a bound on the depth of calls and loop
  rounds still allowed; \<open>Out_of_fuel\<close> is the result when it is used up.
\<close>

definition statement_ident :: "(cg_state \<Rightarrow> fault + (int \<times> cg_state)) \<Rightarrow> cg_state
    \<Rightarrow> fault + (int \<times> cg_state)" where
  "statement_ident expr s =
     (case findSymbol s (currentScope s) (lexeme (getCurrentToken s)) of
        None \<Rightarrow> Inl Null_dereference
      | Some currSym \<Rightarrow>
          if scope currSym \<noteq> currentScope s then Inr (15, s)
          else if type currSym \<noteq> VAR then Inr (16, s)
          else let s1 = nextToken s
          in if getCurrentTokenType s1 \<noteq> becomessym then Inr (7, s1)
          else on_ok (expr (nextToken s1)) (\<lambda>s2. Inr (0, s2)))"

definition statement_call :: "cg_state \<Rightarrow> fault + (int \<times> cg_state)" where
  "statement_call s =
     (let s1 = nextToken s
      in if getCurrentTokenType s1 \<noteq> identsym then Inr (8, s1)
      else case findSymbol s1 (currentScope s1) (lexeme (getCurrentToken s1)) of
        None \<Rightarrow> Inl Null_dereference
      | Some currSym \<Rightarrow>
          if scope currSym \<noteq> currentScope s1 then Inr (15, s1)
          else if type currSym = PROC
            then bind_r (emit CAL 0 (sint (currentLevel s1 - level currSym)) (address currSym) s1)
                   (\<lambda>_ s2. Inr (0, nextToken s2))
          else Inr (17, s1))"

definition statement_begin :: "(cg_state \<Rightarrow> fault + (int \<times> cg_state))
    \<Rightarrow> (cg_state \<Rightarrow> fault + (int \<times> cg_state)) \<Rightarrow> cg_state \<Rightarrow> fault + (int \<times> cg_state)" where
  "statement_begin stmt loop s =
     on_ok (stmt (nextToken s)) (\<lambda>s1.
     on_ok (loop s1) (\<lambda>s2.
       if getCurrentTokenType s2 \<noteq> endsym then Inr (10, s2)
       else Inr (0, nextToken s2)))"

definition statement_if :: "(cg_state \<Rightarrow> fault + (int \<times> cg_state))
    \<Rightarrow> (cg_state \<Rightarrow> fault + (int \<times> cg_state)) \<Rightarrow> cg_state \<Rightarrow> fault + (int \<times> cg_state)" where
  "statement_if cond stmt s =
     on_ok (cond (nextToken s)) (\<lambda>s1.
       if getCurrentTokenType s1 \<noteq> thensym then Inr (9, s1)
       else let s2 = nextToken s1; jmp = nextCodeIndex s2
       in bind_r (emit JPC 0 0 0 s2) (\<lambda>_ s3.
          on_ok (stmt s3) (\<lambda>s4.
            let s5 = backpatch jmp (int (nextCodeIndex s4)) s4
            in if getCurrentTokenType s5 = elsesym
               then let jmp2 = nextCodeIndex s5
                 in bind_r (emit JMP 0 0 0 s5) (\<lambda>_ s6.
                    let s7 = nextToken s6;
                        s8 = backpatch jmp2 (int (nextCodeIndex s7)) s7
                    in on_ok (stmt s8) (\<lambda>s9.
                         Inr (0, backpatch jmp (int (nextCodeIndex s9)) s9)))
               else Inr (0, s5))))"

definition statement_while :: "(cg_state \<Rightarrow> fault + (int \<times> cg_state))
    \<Rightarrow> (cg_state \<Rightarrow> fault + (int \<times> cg_state)) \<Rightarrow> cg_state \<Rightarrow> fault + (int \<times> cg_state)" where
  "statement_while cond stmt s =
     (let jmp = nextCodeIndex s
      in on_ok (cond (nextToken s)) (\<lambda>s1.
         let jmp2 = nextCodeIndex s1
         in bind_r (emit JPC 0 0 0 s1) (\<lambda>_ s2.
            if getCurrentTokenType s2 \<noteq> dosym then Inr (11, s2)
            else on_ok (stmt (nextToken s2)) (\<lambda>s3.
                 bind_r (emit JMP 0 0 (int jmp) s3) (\<lambda>_ s4.
                   Inr (0, backpatch jmp2 (int (nextCodeIndex s4)) s4))))))"

definition statement_write :: "cg_state \<Rightarrow> fault + (int \<times> cg_state)" where
  "statement_write s =
     (let s1 = nextToken s
      in if getCurrentTokenType s1 \<noteq> identsym then Inr (3, s1)
      else case findSymbol s1 (currentScope s1) (lexeme (getCurrentToken s1)) of
        None \<Rightarrow> Inl Null_dereference
      | Some currSym \<Rightarrow>
          if scope currSym \<noteq> currentScope s1 then Inr (15, s1)
          else if type currSym = PROC then Inr (18, s1)
          else bind_r (emit LOD 0 (sint (currentLevel s1 - level currSym)) (address currSym) s1)
                 (\<lambda>_ s2. bind_r (emit SIO_WRITE 0 0 0 s2) (\<lambda>_ s3. Inr (0, nextToken s3))))"

definition statement_read :: "cg_state \<Rightarrow> fault + (int \<times> cg_state)" where
  "statement_read s =
     bind_r (emit SIO_READ 0 0 0 s) (\<lambda>_ s1.
       let s2 = nextToken s1
       in if getCurrentTokenType s2 \<noteq> identsym then Inr (3, s2)
       else case findSymbol s2 (currentScope s2) (lexeme (getCurrentToken s2)) of
         None \<Rightarrow> Inl Null_dereference
       | Some currSym \<Rightarrow>
           if scope currSym \<noteq> currentScope s2 then Inr (15, s2)
           else if type currSym \<noteq> VAR then Inr (19, s2)
           else let s3 = nextToken s2
           in bind_r (emit STO 0 (sint (currentLevel s3 - level currSym)) (address currSym) s3)
                (\<lambda>_ s4. Inr (0, s4)))"

text \<open>The chain of comparisons on the token after the first expression of a condition.\<close>

definition condition_relop :: "cg_state \<Rightarrow> fault + (int \<times> cg_state)" where
  "condition_relop s =
     (let t = getCurrentTokenType s
      in case (if t = eqsym then Some EQL
               else if t = neqsym then Some NEQ
               else if t = leqsym then Some LEQ
               else if t = geqsym then Some GEQ
               else if t = lessym then Some LSS
               else if t = gtrsym then Some GTR
               else None) of
           None \<Rightarrow> Inr (12, s)
         | Some opc \<Rightarrow> bind_r (emit opc 0 0 0 s) (\<lambda>_ s1. Inr (0, nextToken s1)))"

definition condition_body :: "(cg_state \<Rightarrow> fault + (int \<times> cg_state)) \<Rightarrow> cg_state
    \<Rightarrow> fault + (int \<times> cg_state)" where
  "condition_body expr s =
     on_ok (if getCurrentTokenType s = oddsym
            then on_ok (expr (nextToken s)) (\<lambda>s1.
                   bind_r (emit ODD 0 0 0 s1) (\<lambda>_ s2. Inr (0, s2)))
            else on_ok (expr s) condition_relop)
       (\<lambda>s3. on_ok (expr s3) (\<lambda>s4. Inr (0, s4)))"

definition expression_body :: "(cg_state \<Rightarrow> fault + (int \<times> cg_state))
    \<Rightarrow> (token_type \<Rightarrow> cg_state \<Rightarrow> fault + (int \<times> cg_state)) \<Rightarrow> cg_state
    \<Rightarrow> fault + (int \<times> cg_state)" where
  "expression_body trm loop s =
     (let opr = getCurrentTokenType s
      in on_ok (if opr = plussym \<or> opr = minussym
                then on_ok (trm (nextToken s)) (\<lambda>s1.
                       if opr = minussym
                       then bind_r (emit NEG 0 0 0 s1) (\<lambda>_ s2. Inr (0, s2))
                       else Inr (0, s1))
                else Inr (0, s))
           (\<lambda>s3. on_ok (trm s3) (\<lambda>s4. loop opr s4)))"

definition factor_body :: "(cg_state \<Rightarrow> fault + (int \<times> cg_state)) \<Rightarrow> cg_state
    \<Rightarrow> fault + (int \<times> cg_state)" where
  "factor_body expr s =
     (case findSymbol s (currentScope s) (lexeme (getCurrentToken s)) of
        None \<Rightarrow> Inr (15, s)
      | Some currSym \<Rightarrow>
          if getCurrentTokenType s = identsym
          then if type currSym = PROC then Inr (14, s)
               else bind_r (if type currSym = CONST' then emit LIT 0 0 (value currSym) s
                            else emit LOD 0 (sint (currentLevel s - level currSym))
                                   (address currSym) s)
                      (\<lambda>_ s1. Inr (0, nextToken s1))
          else if getCurrentTokenType s = numbersym
          then bind_r (emit LIT 0 0 (atoi (lexeme (getCurrentToken s))) s)
                 (\<lambda>_ s1. Inr (0, nextToken s1))
          else if getCurrentTokenType s = lparentsym
          then on_ok (expr (nextToken s)) (\<lambda>s1.
                 if getCurrentTokenType s1 \<noteq> rparentsym then Inr (13, s1)
                 else Inr (0, nextToken s1))
          else Inr (14, s))"

text \<open>
  \<^verbatim>\<open>block\<close> up to the point where the leading jump is backpatched: the jump, then
  the three optional declaration groups.
\<close>

fun block :: "nat \<Rightarrow> cg_state \<Rightarrow> fault + (int \<times> cg_state)"
  and proc_declaration :: "nat \<Rightarrow> cg_state \<Rightarrow> fault + (int \<times> cg_state)"
  and statement :: "nat \<Rightarrow> cg_state \<Rightarrow> fault + (int \<times> cg_state)"
  and statement_loop :: "nat \<Rightarrow> cg_state \<Rightarrow> fault + (int \<times> cg_state)"
  and condition :: "nat \<Rightarrow> cg_state \<Rightarrow> fault + (int \<times> cg_state)"
  and expression :: "nat \<Rightarrow> cg_state \<Rightarrow> fault + (int \<times> cg_state)"
  and expression_loop :: "nat \<Rightarrow> token_type \<Rightarrow> cg_state \<Rightarrow> fault + (int \<times> cg_state)"
  and "term" :: "nat \<Rightarrow> cg_state \<Rightarrow> fault + (int \<times> cg_state)"
  and term_loop :: "nat \<Rightarrow> token_type \<Rightarrow> cg_state \<Rightarrow> fault + (int \<times> cg_state)"
  and factor :: "nat \<Rightarrow> cg_state \<Rightarrow> fault + (int \<times> cg_state)"
where
  "block 0 s = Inl Out_of_fuel"
| "block (Suc n) s =
     bind_r (emit JMP 0 0 0 s) (\<lambda>jmpAddr s0.
     on_ok (if getCurrentTokenType s0 = constsym then const_declaration s0 else Inr (0, s0)) (\<lambda>s1.
     on_ok (if getCurrentTokenType s1 = varsym then var_declaration s1 else Inr (0, s1)) (\<lambda>s2.
     on_ok (if getCurrentTokenType s2 = procsym then proc_declaration n s2 else Inr (0, s2)) (\<lambda>s3.
     bind_r (emit INC 0 0 4 (backpatch jmpAddr (int (nextCodeIndex s3)) s3)) (\<lambda>_ s4.
     on_ok (statement n s4) (\<lambda>s5.
     bind_r (emit RTN 0 0 0 s5) (\<lambda>_ s6. Inr (0, s6))))))))"
| "proc_declaration 0 s = Inl Out_of_fuel"
| "proc_declaration (Suc n) s =
     (if getCurrentTokenType s = procsym
      then let tempSym = currentScope s
        in case malloc_Symbol s of (newSym, s0) \<Rightarrow>
           let s1 = nextToken (heap_upd newSym
                      (\<lambda>b. b\<lparr>type := PROC, level := currentLevel s0, scope := currentScope s0,
                              address := int (nextCodeIndex s0)\<rparr>) s0)
           in if getCurrentTokenType s1 \<noteq> identsym then Inr (3, s1)
           else let s2 = heap_upd newSym (\<lambda>b. b\<lparr>name := lexeme (getCurrentToken s1)\<rparr>) s1;
                    s3 = nextToken (addSymbol (heap s2 newSym) s2)
           in if getCurrentTokenType s3 \<noteq> semicolonsym then Inr (5, s3)
           else let s4 = nextToken s3;
                    s5 = s4\<lparr>currentScope := Some newSym, currentLevel := currentLevel s4 + 1\<rparr>
           in on_ok (block n s5) (\<lambda>s6.
                let s7 = s6\<lparr>currentLevel := currentLevel s6 - 1, currentScope := tempSym\<rparr>
                in if getCurrentTokenType s7 \<noteq> semicolonsym then Inr (5, s7)
                else proc_declaration n (nextToken s7))
      else Inr (0, s))"
| "statement 0 s = Inl Out_of_fuel"
| "statement (Suc n) s =
     (if getCurrentTokenType s = identsym then statement_ident (expression n) s
      else if getCurrentTokenType s = callsym then statement_call s
      else if getCurrentTokenType s = beginsym
        then statement_begin (statement n) (statement_loop n) s
      else if getCurrentTokenType s = ifsym then statement_if (condition n) (statement n) s
      else if getCurrentTokenType s = whilesym
        then statement_while (condition n) (statement n) s
      else if getCurrentTokenType s = writesym then statement_write s
      else if getCurrentTokenType s = readsym then statement_read s
      else Inr (0, s))"
| "statement_loop 0 s = Inl Out_of_fuel"
| "statement_loop (Suc n) s =
     (if getCurrentTokenType s = semicolonsym
      then on_ok (statement n (nextToken s)) (\<lambda>s1. statement_loop n s1)
      else Inr (0, s))"
| "condition 0 s = Inl Out_of_fuel"
| "condition (Suc n) s = condition_body (expression n) s"
| "expression 0 s = Inl Out_of_fuel"
| "expression (Suc n) s = expression_body (term n) (expression_loop n) s"
| "expression_loop 0 opr s = Inl Out_of_fuel"
| "expression_loop (Suc n) opr s =
     (if opr = plussym \<or> opr = minussym
      then on_ok (term n (nextToken s)) (\<lambda>s1.
           bind_r (if opr = plussym then emit ADD 0 0 0 s1 else emit SUB 0 0 0 s1)
             (\<lambda>_ s2. expression_loop n opr s2))
      else Inr (0, s))"
| "term 0 s = Inl Out_of_fuel"
| "term (Suc n) s =
     (let opr = getCurrentTokenType s
      in on_ok (factor n s) (\<lambda>s1. term_loop n opr s1))"
| "term_loop 0 opr s = Inl Out_of_fuel"
| "term_loop (Suc n) opr s =
     (if opr = multsym \<or> opr = slashsym
      then on_ok (factor n (nextToken s)) (\<lambda>s1.
           bind_r (if opr = multsym then emit MUL 0 0 0 s1 else emit DIV 0 0 0 s1)
             (\<lambda>_ s2. term_loop n opr s2))
      else Inr (0, s))"
| "factor 0 s = Inl Out_of_fuel"
| "factor (Suc n) s = factor_body (expression n) s"

definition program :: "nat \<Rightarrow> cg_state \<Rightarrow> fault + (int \<times> cg_state)" where
  "program n s =
     on_ok (block n s) (\<lambda>s1.
       if getCurrentTokenType s1 = periodsym
       then bind_r (emit SIO_HALT 0 0 3 (nextToken s1)) (\<lambda>_ s2. Inr (0, s2))
       else Inr (6, s1))"


text \<open>
  \<^verbatim>\<open>codeGenerator\<close> resets the globals, runs \<^verbatim>\<open>program\<close>, prints the emitted code when
  the error code is 0, and resets the iterator and the table. The result is the error
  code, the lines printed to \<^verbatim>\<open>out\<close> (one instruction each), and the globals
  as they are left behind. The depth bound given to \<open>program\<close> grows with the number of
  tokens.
\<close>

definition fuel_for :: "Token list \<Rightarrow> nat" where
  "fuel_for toks = 9 * length toks + 10"

definition codeGenerator_entry :: "Token list \<Rightarrow> cg_state \<Rightarrow> cg_state" where
  "codeGenerator_entry toks g =
     g\<lparr>tokenList := toks, currentTokenInd := 0, currentLevel := 0, currentScope := None,
       nextCodeIndex := 0, currentReg := 0, symbolTable := [], vm_log := []\<rparr>"

definition codeGenerator :: "Token list \<Rightarrow> cg_state
    \<Rightarrow> fault + (int \<times> Instruction list \<times> cg_state)" where
  "codeGenerator toks g =
     (case program (fuel_for toks) (codeGenerator_entry toks g) of
        Inl e \<Rightarrow> Inl e
      | Inr (err, s) \<Rightarrow>
          Inr (err, if err = 0 then printEmittedCodes s else [],
               s\<lparr>currentTokenInd := 0, tokenList := [], symbolTable := []\<rparr>))"

text \<open>What a caller of \<^verbatim>\<open>codeGenerator\<close> observes: the error code and the printed lines.\<close>

definition codeGenerator_result :: "Token list \<Rightarrow> cg_state
    \<Rightarrow> fault + (int \<times> Instruction list)" where
  "codeGenerator_result toks g =
     (case codeGenerator toks g of Inl e \<Rightarrow> Inl e | Inr (err, out, _) \<Rightarrow> Inr (err, out))"

text \<open>The error code with the writes to \<^verbatim>\<open>vmCode\<close> made during the run.\<close>

definition codeGenerator_writes :: "Token list \<Rightarrow> cg_state
    \<Rightarrow> fault + (int \<times> vm_write list)" where
  "codeGenerator_writes toks g =
     (case codeGenerator toks g of Inl e \<Rightarrow> Inl e | Inr (err, _, s) \<Rightarrow> Inr (err, vm_log s))"

text \<open>Two compilations of the same tokens, the second starting where the first ended.\<close>

definition two_runs :: "Token list \<Rightarrow> cg_state
    \<Rightarrow> fault + ((int \<times> Instruction list) \<times> (int \<times> Instruction list))" where
  "two_runs toks g =
     (case codeGenerator toks g of
        Inl e \<Rightarrow> Inl e
      | Inr (err1, out1, g1) \<Rightarrow>
          (case codeGenerator toks g1 of
             Inl e \<Rightarrow> Inl e
           | Inr (err2, out2, _) \<Rightarrow> Inr ((err1, out1), (err2, out2))))"

text \<open>How often the \<^verbatim>\<open>m\<close> field at an address was overwritten.\<close>

definition backpatch_count :: "vm_write list \<Rightarrow> nat \<Rightarrow> nat" where
  "backpatch_count ws a =
     length (filter (\<lambda>w. case w of Backpatched b _ \<Rightarrow> b = a | Emitted _ _ \<Rightarrow> False) ws)"

section \<open>Frames and backpatching: the notions\<close>

text \<open>The address a write goes to.\<close>

fun addr_of :: "vm_write \<Rightarrow> nat" where
  "addr_of (Emitted a _) = a"
| "addr_of (Backpatched a _) = a"

text \<open>The writes made between an earlier state and a later one.\<close>

definition log_since :: "cg_state \<Rightarrow> cg_state \<Rightarrow> vm_write list" where
  "log_since s s' = drop (length (vm_log s)) (vm_log s')"

text \<open>A state reached from an earlier one by emitting and backpatching only at addresses from the earlier \<^verbatim>\<open>nextCodeIndex\<close> on: the tokens, the array length and the code below that index are as before, and the cursor and the index have not gone back.\<close>

definition follows :: "cg_state \<Rightarrow> cg_state \<Rightarrow> bool" where
  "follows s s' \<longleftrightarrow>
     tokenList s' = tokenList s \<and> currentTokenInd s \<le> currentTokenInd s'
     \<and> length (vmCode s') = length (vmCode s)
     \<and> nextCodeIndex s \<le> nextCodeIndex s'
     \<and> (nextCodeIndex s \<le> length (vmCode s) \<longrightarrow> nextCodeIndex s' \<le> length (vmCode s'))
     \<and> (\<forall>i<nextCodeIndex s. vmCode s' ! i = vmCode s ! i)
     \<and> vm_log s' = vm_log s @ log_since s s'
     \<and> (\<forall>w\<in>set (log_since s s'). nextCodeIndex s \<le> addr_of w \<and> addr_of w < nextCodeIndex s')"

text \<open>A jump emitted with the target 0, to be filled in later.\<close>

definition is_placeholder :: "Instruction \<Rightarrow> bool" where
  "is_placeholder i \<longleftrightarrow> (op i = JMP \<or> op i = JPC) \<and> m i = 0"

text \<open>
  Every placeholder emitted in a list of writes is backpatched there exactly once, or, when
  it is a conditional jump, possibly twice.
\<close>

definition well_patched :: "vm_write list \<Rightarrow> bool" where
  "well_patched ws =
     list_all (\<lambda>w. case w of
         Emitted a i \<Rightarrow> is_placeholder i \<longrightarrow>
           backpatch_count ws a = 1 \<or> (op i = JPC \<and> backpatch_count ws a = 2)
       | Backpatched _ _ \<Rightarrow> True) ws"

text \<open>What a production called at a state with at least one instruction emitted leaves behind: a state that follows, and, on error code 0, writes in which every placeholder is backpatched.\<close>

definition run_inv :: "int \<Rightarrow> cg_state \<Rightarrow> cg_state \<Rightarrow> bool" where
  "run_inv e s s' \<longleftrightarrow> follows s s' \<and> (e = 0 \<and> 0 < nextCodeIndex s \<longrightarrow> well_patched (log_since s s'))"

text \<open>A result computed after \<open>s\<close> satisfies the invariant relative to \<open>s\<close>.\<close>

definition ends_ok :: "cg_state \<Rightarrow> fault + (int \<times> cg_state) \<Rightarrow> bool" where
  "ends_ok s x \<longleftrightarrow> (\<forall>e s'. x = Inr (e, s') \<longrightarrow> run_inv e s s')"

definition sound :: "(cg_state \<Rightarrow> fault + (int \<times> cg_state)) \<Rightarrow> bool" where
  "sound f \<longleftrightarrow> (\<forall>s. ends_ok s (f s))"

text \<open>A step that leaves the code, the index and the log alone.\<close>

definition same_code :: "cg_state \<Rightarrow> cg_state \<Rightarrow> bool" where
  "same_code t t' \<longleftrightarrow>
     tokenList t' = tokenList t \<and> currentTokenInd t \<le> currentTokenInd t'
     \<and> vmCode t' = vmCode t \<and> nextCodeIndex t' = nextCodeIndex t \<and> vm_log t' = vm_log t"

text \<open>The invariant without the condition on the index.\<close>

definition patched :: "cg_state \<Rightarrow> cg_state \<Rightarrow> bool" where
  "patched s s' \<longleftrightarrow> follows s s' \<and> well_patched (log_since s s')"

definition sound_all :: "(cg_state \<Rightarrow> fault + (int \<times> cg_state)) \<Rightarrow> bool" where
  "sound_all f \<longleftrightarrow> (\<forall>s e s'. f s = Inr (e, s') \<longrightarrow> follows s s' \<and> (e = 0 \<longrightarrow> patched s s'))"

section \<open>Termination and capacity: the notions\<close>

text \<open>The tokens from the cursor on.\<close>

definition rem_tokens :: "cg_state \<Rightarrow> nat" where
  "rem_tokens s = length (tokenList s) - currentTokenInd s"

text \<open>A state over the same tokens whose cursor has not gone back.\<close>

definition later :: "cg_state \<Rightarrow> cg_state \<Rightarrow> bool" where
  "later s t \<longleftrightarrow> tokenList t = tokenList s \<and> currentTokenInd s \<le> currentTokenInd t"

text \<open>A state over the same tokens whose cursor has moved past a token of the list.\<close>

definition consumed :: "cg_state \<Rightarrow> cg_state \<Rightarrow> bool" where
  "consumed s t \<longleftrightarrow> tokenList t = tokenList s \<and> currentTokenInd s < currentTokenInd t
     \<and> currentTokenInd s < length (tokenList s)"

text \<open>A result that is not the depth bound being used up.\<close>

definition safe :: "fault + 'a \<Rightarrow> bool" where
  "safe x \<longleftrightarrow> x \<noteq> Inl Out_of_fuel"

text \<open>
  The depth bound \<open>n\<close> is enough for a production of the given rank at \<open>s\<close>: nine
  calls for each token left, and the rank of the production on top.
\<close>

definition fits :: "nat \<Rightarrow> nat \<Rightarrow> cg_state \<Rightarrow> bool" where
  "fits rank n s \<longleftrightarrow> rank + 9 * rem_tokens s \<le> n"

text \<open>The index of the next instruction is at most the length of \<^verbatim>\<open>vmCode\<close>.\<close>

definition bounded :: "cg_state \<Rightarrow> bool" where
  "bounded s \<longleftrightarrow> nextCodeIndex s \<le> length (vmCode s)"

text \<open>A result that is not a write past the end of \<^verbatim>\<open>vmCode\<close>.\<close>

definition in_bounds :: "fault + 'a \<Rightarrow> bool" where
  "in_bounds x \<longleftrightarrow> x \<noteq> Inl Out_of_bounds"

section \<open>Token sequences used below\<close>

definition tk :: "token_type \<Rightarrow> string \<Rightarrow> Token" where
  "tk t x = \<lparr>id_tok = t, lexeme = x\<rparr>"

definition ins :: "opcode \<Rightarrow> int \<Rightarrow> int \<Rightarrow> int \<Rightarrow> Instruction" where
  "ins OP R L M = \<lparr>op = OP, r = R, l = L, m = M\<rparr>"

text \<open>\<^verbatim>\<open>const a = 5; var b; begin b := a + 1; write b end.\<close>\<close>

definition scenario_1 :: "Token list" where
  "scenario_1 =
     [tk constsym ''const'', tk identsym ''a'', tk eqsym ''='', tk numbersym ''5'',
      tk semicolonsym '';'', tk varsym ''var'', tk identsym ''b'', tk semicolonsym '';'',
      tk beginsym ''begin'', tk identsym ''b'', tk becomessym '':='', tk identsym ''a'',
      tk plussym ''+'', tk numbersym ''1'', tk semicolonsym '';'', tk writesym ''write'',
      tk identsym ''b'', tk endsym ''end'', tk periodsym ''.'']"

text \<open>\<^verbatim>\<open>var x; begin call x end.\<close>\<close>

definition scenario_3 :: "Token list" where
  "scenario_3 =
     [tk varsym ''var'', tk identsym ''x'', tk semicolonsym '';'', tk beginsym ''begin'',
      tk callsym ''call'', tk identsym ''x'', tk endsym ''end'', tk periodsym ''.'']"

text \<open>\<^verbatim>\<open>var x, y; x := x + y.\<close>, \<^verbatim>\<open>var x, y; x := x * y.\<close> and \<^verbatim>\<open>var x; x := - x.\<close>\<close>

definition var_x_y :: "Token list" where
  "var_x_y = [tk varsym ''var'', tk identsym ''x'', tk commasym '','', tk identsym ''y'',
      tk semicolonsym '';'']"

definition sum_program :: "Token list" where
  "sum_program = var_x_y @ [tk identsym ''x'', tk becomessym '':='', tk identsym ''x'',
      tk plussym ''+'', tk identsym ''y'', tk periodsym ''.'']"

definition product_program :: "Token list" where
  "product_program = var_x_y @ [tk identsym ''x'', tk becomessym '':='', tk identsym ''x'',
      tk multsym ''*'', tk identsym ''y'', tk periodsym ''.'']"

definition var_x :: "Token list" where
  "var_x = [tk varsym ''var'', tk identsym ''x'', tk semicolonsym '';'']"

definition negation_program :: "Token list" where
  "negation_program = var_x @ [tk identsym ''x'', tk becomessym '':='', tk minussym ''-'',
      tk identsym ''x'', tk periodsym ''.'']"

text \<open>\<^verbatim>\<open>var x; if x = x then x := x else x := x.\<close> and the same without the else branch\<close>

definition if_then :: "Token list" where
  "if_then = [tk ifsym ''if'', tk identsym ''x'', tk eqsym ''='', tk identsym ''x'',
      tk thensym ''then'', tk identsym ''x'', tk becomessym '':='', tk identsym ''x'']"

definition if_else_program :: "Token list" where
  "if_else_program = var_x @ if_then @ [tk elsesym ''else'', tk identsym ''x'',
      tk becomessym '':='', tk identsym ''x'', tk periodsym ''.'']"

definition if_program :: "Token list" where
  "if_program = var_x @ if_then @ [tk periodsym ''.'']"

text \<open>\<^verbatim>\<open>var x; if odd x then x := x.\<close>\<close>

definition odd_program :: "Token list" where
  "odd_program = var_x @ [tk ifsym ''if'', tk oddsym ''odd'', tk identsym ''x'',
      tk thensym ''then'', tk identsym ''x'', tk becomessym '':='', tk identsym ''x'',
      tk periodsym ''.'']"

text \<open>\<^verbatim>\<open>const a = 5; write a.\<close>\<close>

definition write_const_program :: "Token list" where
  "write_const_program = [tk constsym ''const'', tk identsym ''a'', tk eqsym ''='',
      tk numbersym ''5'', tk semicolonsym '';'', tk writesym ''write'', tk identsym ''a'',
      tk periodsym ''.'']"

text \<open>
  \<^verbatim>\<open>x := x.\<close>, \<^verbatim>\<open>call x.\<close>, \<^verbatim>\<open>write x.\<close> and \<^verbatim>\<open>read x.\<close> with no declaration of \<^verbatim>\<open>x\<close>, and
  \<^verbatim>\<open>var y; y := x.\<close>
\<close>

definition assign_undeclared :: "Token list" where
  "assign_undeclared = [tk identsym ''x'', tk becomessym '':='', tk identsym ''x'',
      tk periodsym ''.'']"

definition call_undeclared :: "Token list" where
  "call_undeclared = [tk callsym ''call'', tk identsym ''x'', tk periodsym ''.'']"

definition write_undeclared :: "Token list" where
  "write_undeclared = [tk writesym ''write'', tk identsym ''x'', tk periodsym ''.'']"

definition read_undeclared :: "Token list" where
  "read_undeclared = [tk readsym ''read'', tk identsym ''x'', tk periodsym ''.'']"

definition factor_undeclared :: "Token list" where
  "factor_undeclared = [tk varsym ''var'', tk identsym ''y'', tk semicolonsym '';'',
      tk identsym ''y'', tk becomessym '':='', tk identsym ''x'', tk periodsym ''.'']"

text \<open>
  A state before any compilation: an instruction array of 500 cells, and symbol blocks
  whose uninitialised fields hold the given address.
\<close>

definition blank_symbol :: "int \<Rightarrow> Symbol" where
  "blank_symbol a = \<lparr>name = [], type = VAR, level = 0, scope = None, value = 0, address = a\<rparr>"

definition fresh_state :: "int \<Rightarrow> cg_state" where
  "fresh_state a =
     \<lparr>tokenList = [], currentTokenInd = 0, currentLevel = 0, currentScope = None,
      symbolTable = [], vmCode = replicate 500 (ins LIT 0 0 0), nextCodeIndex = 0,
      heap = (\<lambda>_. blank_symbol a), heap_top = 0, currentReg = 0, vm_log = []\<rparr>"


text \<open>The same, with the \<open>n\<close>-th symbol block holding \<open>n\<close> in its uninitialised fields.\<close>

definition numbered_heap_state :: cg_state where
  "numbered_heap_state = (fresh_state 0)\<lparr>heap := (\<lambda>n. blank_symbol (int n))\<rparr>"

text \<open>The state in which \<^verbatim>\<open>program\<close> starts on \<^verbatim>\<open>var x; if x = x then x := x.\<close>\<close>

definition entry_if :: cg_state where
  "entry_if = codeGenerator_entry if_program (fresh_state 0)"

text \<open>The writes of the run on \<^verbatim>\<open>var x; if x = x then x := x else x := x.\<close>\<close>

definition if_else_writes :: "vm_write list" where
  "if_else_writes =
     [Emitted 0 (ins JMP 0 0 0), Emitted 1 (ins INC 0 0 1), Backpatched 0 2,
      Emitted 2 (ins INC 0 0 4), Emitted 3 (ins LOD 0 0 1), Emitted 4 (ins EQL 0 0 0),
      Emitted 5 (ins LOD 0 0 1), Emitted 6 (ins JPC 0 0 0), Emitted 7 (ins LOD 0 0 1),
      Backpatched 6 8, Emitted 8 (ins JMP 0 0 0), Backpatched 8 9, Emitted 9 (ins LOD 0 0 1),
      Backpatched 6 10, Emitted 10 (ins RTN 0 0 0), Emitted 11 (ins SIO_HALT 0 0 3)]"

section \<open>Evaluating the generator on given tokens\<close>

lemma emit_in_range:
  "Suc (nextCodeIndex s) \<le> length (vmCode s) \<Longrightarrow>
     emit OP R L M s = Inr (nextCodeIndex s,
        s\<lparr>vmCode := (vmCode s)[nextCodeIndex s := \<lparr>op = OP, r = R, l = L, m = M\<rparr>],
          nextCodeIndex := Suc (nextCodeIndex s),
          vm_log := vm_log s @ [Emitted (nextCodeIndex s) \<lparr>op = OP, r = R, l = L, m = M\<rparr>]\<rparr>)"
  by (simp add: emit_def MAX_CODE_LENGTH_def)

lemma fuel_numeral:
  "block (numeral k) s = block (Suc (pred_numeral k)) s"
  "proc_declaration (numeral k) s = proc_declaration (Suc (pred_numeral k)) s"
  "statement (numeral k) s = statement (Suc (pred_numeral k)) s"
  "statement_loop (numeral k) s = statement_loop (Suc (pred_numeral k)) s"
  "condition (numeral k) s = condition (Suc (pred_numeral k)) s"
  "expression (numeral k) s = expression (Suc (pred_numeral k)) s"
  "expression_loop (numeral k) t s = expression_loop (Suc (pred_numeral k)) t s"
  "term (numeral k) s = term (Suc (pred_numeral k)) s"
  "term_loop (numeral k) t s = term_loop (Suc (pred_numeral k)) t s"
  "factor (numeral k) s = factor (Suc (pred_numeral k)) s"
  by (simp_all only: numeral_eq_Suc)

lemma on_ok_simps:
  "on_ok (Inl e) k = Inl e"
  "on_ok (Inr (0, s)) k = k s"
  "err \<noteq> 0 \<Longrightarrow> on_ok (Inr (err, s)) k = Inr (err, s)"
  by (simp_all add: on_ok_def)

lemma bind_r_simps:
  "bind_r (Inl e) f = Inl e"
  "bind_r (Inr (a, s)) f = f a s"
  by (simp_all add: bind_r_def)

lemma on_ok_weak_cong: "x = y \<Longrightarrow> on_ok x k = on_ok y k"
  by simp

lemma bind_r_weak_cong: "x = y \<Longrightarrow> bind_r x f = bind_r y f"
  by simp

lemma Let_weak_cong: "a = b \<Longrightarrow> Let a t = Let b t"
  by simp

lemma findSymbol_from_global: "findSymbol_from k hp tab None nm = lookup_in tab None nm"
  by (cases k) (auto split: option.splits)

lemma take_nths: "n \<le> length xs \<Longrightarrow> take n xs = map ((!) xs) [0..<n]"
  by (induction n) (simp_all add: take_Suc_conv_app_nth)

lemma fresh_state_capacity: "length (vmCode (fresh_state a)) = 500"
  by (simp add: fresh_state_def)

lemmas run_defs = codeGenerator_result_def codeGenerator_writes_def codeGenerator_def
  codeGenerator_entry_def fuel_for_def program_def on_ok_simps bind_r_simps getCurrentToken_def
  getCurrentTokenType_def nextToken_def backpatch_def printEmittedCodes_def addSymbol_def
  lookup_in_def findSymbol_def heap_upd_def malloc_Symbol_def statement_ident_def
  statement_call_def statement_begin_def statement_if_def statement_while_def
  statement_write_def statement_read_def condition_relop_def condition_body_def
  expression_body_def factor_body_def tk_def ins_def digit_val_def isspace_def
  atoi_def strtol_def fuel_numeral emit_in_range findSymbol_from_global Let_def take_nths

text \<open>The value of a numeric literal is the one an \<^verbatim>\<open>int\<close> of 32 bits holds.\<close>

lemma atoi_values:
  "atoi ''5'' = 5"
  "atoi '' -12x'' = - 12"
  "atoi ''2147483647'' = 2147483647"
  "atoi ''2147483648'' = - 2147483648"
  "atoi ''9223372036854775808'' = - 1"
  by (simp_all add: atoi_def strtol_def digit_val_def isspace_def)

lemma atoi_range: "- 2147483648 \<le> atoi cs \<and> atoi cs \<le> 2147483647"
proof -
  have "- (2 ^ (LENGTH(32) - 1)) \<le> sint (word_of_int (strtol cs) :: 32 word)"
    by (rule sint_ge)
  moreover have "sint (word_of_int (strtol cs) :: 32 word) < 2 ^ (LENGTH(32) - 1)"
    by (rule sint_lt)
  ultimately show ?thesis by (simp add: atoi_def)
qed

section \<open>The claims on given programs\<close>

text \<open>
  C1. Scenario 1, \<^verbatim>\<open>const a = 5; var b; begin b := a + 1; write b end.\<close>, is claimed to
  compile with error code 0 to code that loads the literal, adds, stores to \<^verbatim>\<open>b\<close>,
  loads \<^verbatim>\<open>b\<close>, writes and halts. The generator returns error code 10 and prints
  nothing: \<^verbatim>\<open>expression\<close> reads its operator before the first term, so it returns at
  the \<^verbatim>\<open>+\<close>, and the enclosing \<^verbatim>\<open>begin\<close> finds neither a semicolon nor \<^verbatim>\<open>end\<close>.
\<close>

theorem scenario_1_returns_10:
  assumes "4 \<le> length (vmCode g)"
  shows "codeGenerator_result scenario_1 g = Inr (10, [])"
proof -
  from assms have "vmCode g \<noteq> []" by auto
  with assms show ?thesis
    by (simp add: scenario_1_def run_defs
        del: Suc_numeral cong: on_ok_weak_cong bind_r_weak_cong Let_weak_cong)
qed

theorem scenario_1_returns_10_witness:
  "4 \<le> length (vmCode (fresh_state 0))
   \<and> codeGenerator_result scenario_1 (fresh_state 0) = Inr (10, [])"
  using scenario_1_returns_10 [of "fresh_state 0"] by (simp add: fresh_state_capacity)

text \<open>
  C2. \<^verbatim>\<open>expression\<close> and \<^verbatim>\<open>term\<close> are claimed to parse chains of operands separated by
  operators. On \<^verbatim>\<open>var x, y; x := x + y.\<close> and \<^verbatim>\<open>var x, y; x := x * y.\<close> the generator
  emits the load of the first operand only, returns to \<^verbatim>\<open>program\<close> at the operator and
  reports error 6; on \<^verbatim>\<open>var x; x := - x.\<close> it emits the load and the negation, then
  parses a second term at the period and reports error 15.
\<close>

theorem operator_chains_not_parsed:
  assumes "6 \<le> length (vmCode g)"
  shows "codeGenerator_writes sum_program g =
           Inr (6, [Emitted 0 (ins JMP 0 0 0), Emitted 1 (ins INC 0 0 1),
                    Emitted 2 (ins INC 0 0 1), Backpatched 0 3, Emitted 3 (ins INC 0 0 4),
                    Emitted 4 (ins LOD 0 0 1), Emitted 5 (ins RTN 0 0 0)])
       \<and> codeGenerator_writes product_program g =
           Inr (6, [Emitted 0 (ins JMP 0 0 0), Emitted 1 (ins INC 0 0 1),
                    Emitted 2 (ins INC 0 0 1), Backpatched 0 3, Emitted 3 (ins INC 0 0 4),
                    Emitted 4 (ins LOD 0 0 1), Emitted 5 (ins RTN 0 0 0)])
       \<and> codeGenerator_writes negation_program g =
           Inr (15, [Emitted 0 (ins JMP 0 0 0), Emitted 1 (ins INC 0 0 1), Backpatched 0 2,
                     Emitted 2 (ins INC 0 0 4), Emitted 3 (ins LOD 0 0 1),
                     Emitted 4 (ins NEG 0 0 0)])"
proof -
  from assms have ne: "vmCode g \<noteq> []" by auto
  have "codeGenerator_writes sum_program g =
           Inr (6, [Emitted 0 (ins JMP 0 0 0), Emitted 1 (ins INC 0 0 1),
                    Emitted 2 (ins INC 0 0 1), Backpatched 0 3, Emitted 3 (ins INC 0 0 4),
                    Emitted 4 (ins LOD 0 0 1), Emitted 5 (ins RTN 0 0 0)])"
    using assms ne
    by (simp add: sum_program_def var_x_y_def run_defs
        del: Suc_numeral cong: on_ok_weak_cong bind_r_weak_cong Let_weak_cong)
  moreover have "codeGenerator_writes product_program g =
           Inr (6, [Emitted 0 (ins JMP 0 0 0), Emitted 1 (ins INC 0 0 1),
                    Emitted 2 (ins INC 0 0 1), Backpatched 0 3, Emitted 3 (ins INC 0 0 4),
                    Emitted 4 (ins LOD 0 0 1), Emitted 5 (ins RTN 0 0 0)])"
    using assms ne
    by (simp add: product_program_def var_x_y_def run_defs
        del: Suc_numeral cong: on_ok_weak_cong bind_r_weak_cong Let_weak_cong)
  moreover have "codeGenerator_writes negation_program g =
           Inr (15, [Emitted 0 (ins JMP 0 0 0), Emitted 1 (ins INC 0 0 1), Backpatched 0 2,
                     Emitted 2 (ins INC 0 0 4), Emitted 3 (ins LOD 0 0 1),
                     Emitted 4 (ins NEG 0 0 0)])"
    using assms ne
    by (simp add: negation_program_def var_x_def run_defs
        del: Suc_numeral cong: on_ok_weak_cong bind_r_weak_cong Let_weak_cong)
  ultimately show ?thesis by simp
qed

theorem operator_chains_not_parsed_witness:
  "6 \<le> length (vmCode (fresh_state 0))
   \<and> codeGenerator_writes sum_program (fresh_state 0) =
           Inr (6, [Emitted 0 (ins JMP 0 0 0), Emitted 1 (ins INC 0 0 1),
                    Emitted 2 (ins INC 0 0 1), Backpatched 0 3, Emitted 3 (ins INC 0 0 4),
                    Emitted 4 (ins LOD 0 0 1), Emitted 5 (ins RTN 0 0 0)])"
  using operator_chains_not_parsed [of "fresh_state 0"] by (simp add: fresh_state_capacity)

text \<open>
  C3. With an else branch, the conditional jump is claimed to land past the
  unconditional jump that follows the then-branch, and that unconditional jump after
  the else-branch. On \<^verbatim>\<open>var x; if x = x then x := x else x := x.\<close> the conditional jump
  at address 6 is left with target 10, the address after the else-branch, and the
  unconditional jump at address 8 with target 9, the address right after itself.
\<close>

theorem if_else_jump_targets:
  assumes "12 \<le> length (vmCode g)"
  shows "codeGenerator_result if_else_program g =
    Inr (0, [ins JMP 0 0 2, ins INC 0 0 1, ins INC 0 0 4, ins LOD 0 0 1, ins EQL 0 0 0,
             ins LOD 0 0 1, ins JPC 0 0 10, ins LOD 0 0 1, ins JMP 0 0 9, ins LOD 0 0 1,
             ins RTN 0 0 0, ins SIO_HALT 0 0 3])"
proof -
  from assms have "vmCode g \<noteq> []" by auto
  with assms show ?thesis
    by (simp add: if_else_program_def var_x_def if_then_def run_defs
        del: Suc_numeral cong: on_ok_weak_cong bind_r_weak_cong Let_weak_cong)
qed

theorem if_else_jump_targets_witness:
  "12 \<le> length (vmCode (fresh_state 0))
   \<and> codeGenerator_result if_else_program (fresh_state 0) =
    Inr (0, [ins JMP 0 0 2, ins INC 0 0 1, ins INC 0 0 4, ins LOD 0 0 1, ins EQL 0 0 0,
             ins LOD 0 0 1, ins JPC 0 0 10, ins LOD 0 0 1, ins JMP 0 0 9, ins LOD 0 0 1,
             ins RTN 0 0 0, ins SIO_HALT 0 0 3])"
  using if_else_jump_targets [of "fresh_state 0"] by (simp add: fresh_state_capacity)

text \<open>
  C5. \<^verbatim>\<open>condition\<close> is claimed to emit, for \<^verbatim>\<open>odd\<close>, the expression and the is-odd test
  and nothing more, and for a comparison both operands and then the comparison. On
  \<^verbatim>\<open>var x; if odd x then x := x.\<close> the generator emits the load and the test, then
  parses one more expression at \<^verbatim>\<open>then\<close> and reports error 15; on
  \<^verbatim>\<open>var x; if x = x then x := x.\<close> the comparison is emitted between the two loads.
\<close>

theorem condition_extra_expression:
  assumes "10 \<le> length (vmCode g)"
  shows "codeGenerator_writes odd_program g =
           Inr (15, [Emitted 0 (ins JMP 0 0 0), Emitted 1 (ins INC 0 0 1), Backpatched 0 2,
                     Emitted 2 (ins INC 0 0 4), Emitted 3 (ins LOD 0 0 1),
                     Emitted 4 (ins ODD 0 0 0)])
       \<and> codeGenerator_result if_program g =
           Inr (0, [ins JMP 0 0 2, ins INC 0 0 1, ins INC 0 0 4, ins LOD 0 0 1,
                    ins EQL 0 0 0, ins LOD 0 0 1, ins JPC 0 0 8, ins LOD 0 0 1,
                    ins RTN 0 0 0, ins SIO_HALT 0 0 3])"
proof -
  from assms have ne: "vmCode g \<noteq> []" by auto
  have "codeGenerator_writes odd_program g =
           Inr (15, [Emitted 0 (ins JMP 0 0 0), Emitted 1 (ins INC 0 0 1), Backpatched 0 2,
                     Emitted 2 (ins INC 0 0 4), Emitted 3 (ins LOD 0 0 1),
                     Emitted 4 (ins ODD 0 0 0)])"
    using assms ne
    by (simp add: odd_program_def var_x_def run_defs
        del: Suc_numeral cong: on_ok_weak_cong bind_r_weak_cong Let_weak_cong)
  moreover have "codeGenerator_result if_program g =
           Inr (0, [ins JMP 0 0 2, ins INC 0 0 1, ins INC 0 0 4, ins LOD 0 0 1,
                    ins EQL 0 0 0, ins LOD 0 0 1, ins JPC 0 0 8, ins LOD 0 0 1,
                    ins RTN 0 0 0, ins SIO_HALT 0 0 3])"
    using assms ne
    by (simp add: if_program_def var_x_def if_then_def run_defs
        del: Suc_numeral cong: on_ok_weak_cong bind_r_weak_cong Let_weak_cong)
  ultimately show ?thesis by simp
qed

theorem condition_extra_expression_witness:
  "10 \<le> length (vmCode (fresh_state 0))
   \<and> codeGenerator_writes odd_program (fresh_state 0) =
           Inr (15, [Emitted 0 (ins JMP 0 0 0), Emitted 1 (ins INC 0 0 1), Backpatched 0 2,
                     Emitted 2 (ins INC 0 0 4), Emitted 3 (ins LOD 0 0 1),
                     Emitted 4 (ins ODD 0 0 0)])"
  using condition_extra_expression [of "fresh_state 0"] by (simp add: fresh_state_capacity)

text \<open>
  C6. Scenario 3, \<^verbatim>\<open>var x; begin call x end.\<close>: the call of a variable returns error
  code 17 and nothing is printed, from any earlier state whose instruction array has
  room for the three instructions emitted before the call is reached.
\<close>

theorem scenario_3_returns_17:
  assumes "3 \<le> length (vmCode g)"
  shows "codeGenerator_result scenario_3 g = Inr (17, [])"
proof -
  from assms have "vmCode g \<noteq> []" by auto
  with assms show ?thesis
    by (simp add: scenario_3_def run_defs
        del: Suc_numeral cong: on_ok_weak_cong bind_r_weak_cong Let_weak_cong)
qed

theorem scenario_3_returns_17_witness:
  "3 \<le> length (vmCode (fresh_state 0))
   \<and> codeGenerator_result scenario_3 (fresh_state 0) = Inr (17, [])"
  using scenario_3_returns_17 [of "fresh_state 0"] by (simp add: fresh_state_capacity)

text \<open>
  C8. A call of \<^verbatim>\<open>emit\<close> made when \<^verbatim>\<open>nextCodeIndex\<close> equals \<^verbatim>\<open>MAX_CODE_LENGTH\<close> ends the
  process: no address and no state come back, so nothing is written. A call that
  does return wrote inside the array and left its length as it was.
\<close>

theorem emit_at_capacity_exits:
  "(nextCodeIndex s = MAX_CODE_LENGTH s \<longrightarrow> emit OP R L M s = Inl Process_exit)
   \<and> (\<forall>a s'. emit OP R L M s = Inr (a, s') \<longrightarrow>
         a < MAX_CODE_LENGTH s \<and> MAX_CODE_LENGTH s' = MAX_CODE_LENGTH s
         \<and> nextCodeIndex s' \<le> MAX_CODE_LENGTH s'
         \<and> vmCode s' = (vmCode s)[a := \<lparr>op = OP, r = R, l = L, m = M\<rparr>])"
  by (auto simp: emit_def MAX_CODE_LENGTH_def split: if_splits)

theorem emit_at_capacity_exits_witness:
  "nextCodeIndex ((fresh_state 0)\<lparr>nextCodeIndex := 500\<rparr>)
     = MAX_CODE_LENGTH ((fresh_state 0)\<lparr>nextCodeIndex := 500\<rparr>)
   \<and> emit JMP 0 0 0 ((fresh_state 0)\<lparr>nextCodeIndex := 500\<rparr>) = Inl Process_exit"
  using emit_at_capacity_exits [of "(fresh_state 0)\<lparr>nextCodeIndex := 500\<rparr>" JMP 0 0 0]
  by (simp add: fresh_state_def MAX_CODE_LENGTH_def)

text \<open>
  C9. Two successive compilations are claimed to print the same lines. \<^verbatim>\<open>write\<close> of a
  constant prints the \<^verbatim>\<open>address\<close> field of the constant's symbol, which
  \<^verbatim>\<open>const_declaration\<close> never assigns: the line shows what the allocated block held
  before. On \<^verbatim>\<open>const a = 5; write a.\<close>, compiled twice in a row where the blocks handed
  out hold different values, the two outputs differ in the load instruction.
\<close>

theorem two_runs_print_different_lines:
  "two_runs write_const_program numbered_heap_state =
     Inr ((0, [ins JMP 0 0 1, ins INC 0 0 4, ins LOD 0 0 0, ins SIO_WRITE 0 0 0,
               ins RTN 0 0 0, ins SIO_HALT 0 0 3]),
          (0, [ins JMP 0 0 1, ins INC 0 0 4, ins LOD 0 0 1, ins SIO_WRITE 0 0 0,
               ins RTN 0 0 0, ins SIO_HALT 0 0 3]))"
  by (simp add: two_runs_def numbered_heap_state_def fresh_state_def blank_symbol_def
      write_const_program_def run_defs
      del: Suc_numeral cong: on_ok_weak_cong bind_r_weak_cong Let_weak_cong)

text \<open>
  C10. In the assignment, call, write and read branches of \<^verbatim>\<open>statement\<close> the result of
  \<^verbatim>\<open>findSymbol\<close> is dereferenced unchecked: with an identifier that is not in the table
  the run ends in a null dereference, where \<^verbatim>\<open>factor\<close> returns error 15.
\<close>

theorem statement_dereferences_null:
  assumes "3 \<le> length (vmCode g)"
  shows "codeGenerator_result assign_undeclared g = Inl Null_dereference
       \<and> codeGenerator_result call_undeclared g = Inl Null_dereference
       \<and> codeGenerator_result write_undeclared g = Inl Null_dereference
       \<and> codeGenerator_result read_undeclared g = Inl Null_dereference
       \<and> codeGenerator_result factor_undeclared g = Inr (15, [])"
proof -
  from assms have ne: "vmCode g \<noteq> []" by auto
  have "codeGenerator_result assign_undeclared g = Inl Null_dereference"
    using assms ne
    by (simp add: assign_undeclared_def run_defs
        del: Suc_numeral cong: on_ok_weak_cong bind_r_weak_cong Let_weak_cong)
  moreover have "codeGenerator_result call_undeclared g = Inl Null_dereference"
    using assms ne
    by (simp add: call_undeclared_def run_defs
        del: Suc_numeral cong: on_ok_weak_cong bind_r_weak_cong Let_weak_cong)
  moreover have "codeGenerator_result write_undeclared g = Inl Null_dereference"
    using assms ne
    by (simp add: write_undeclared_def run_defs
        del: Suc_numeral cong: on_ok_weak_cong bind_r_weak_cong Let_weak_cong)
  moreover have "codeGenerator_result read_undeclared g = Inl Null_dereference"
    using assms ne
    by (simp add: read_undeclared_def run_defs
        del: Suc_numeral cong: on_ok_weak_cong bind_r_weak_cong Let_weak_cong)
  moreover have "codeGenerator_result factor_undeclared g = Inr (15, [])"
    using assms ne
    by (simp add: factor_undeclared_def run_defs
        del: Suc_numeral cong: on_ok_weak_cong bind_r_weak_cong Let_weak_cong)
  ultimately show ?thesis by simp
qed

theorem statement_dereferences_null_witness:
  "3 \<le> length (vmCode (fresh_state 0))
   \<and> codeGenerator_result assign_undeclared (fresh_state 0) = Inl Null_dereference
   \<and> codeGenerator_result factor_undeclared (fresh_state 0) = Inr (15, [])"
  using statement_dereferences_null [of "fresh_state 0"] by (simp add: fresh_state_capacity)

section \<open>Frames and backpatching: every production\<close>

lemma log_since_self [simp]: "log_since s s = []"
  by (simp add: log_since_def)

lemma follows_refl [simp]: "follows s s"
  by (simp add: follows_def)

lemma log_since_trans:
  assumes "follows s t" "follows t u"
  shows "log_since s u = log_since s t @ log_since t u"
proof -
  have 1: "vm_log t = vm_log s @ log_since s t" and 2: "vm_log u = vm_log t @ log_since t u"
    using assms by (simp_all add: follows_def)
  have "vm_log u = vm_log s @ (log_since s t @ log_since t u)"
    by (subst 2, subst 1) simp
  then have "drop (length (vm_log s)) (vm_log u) = log_since s t @ log_since t u"
    by (metis append_eq_conv_conj)
  then show ?thesis by (simp only: log_since_def [of s u])
qed

lemma follows_trans:
  assumes "follows s t" "follows t u"
  shows "follows s u"
proof -
  have l: "log_since s u = log_since s t @ log_since t u"
    by (rule log_since_trans [OF assms])
  show ?thesis
    unfolding follows_def l
    using assms by (fastforce simp: follows_def)
qed

lemma backpatch_count_append [simp]:
  "backpatch_count (xs @ ys) a = backpatch_count xs a + backpatch_count ys a"
  by (simp add: backpatch_count_def)

lemma backpatch_count_zero:
  "\<forall>w\<in>set ws. addr_of w \<noteq> a \<Longrightarrow> backpatch_count ws a = 0"
  by (induction ws) (auto simp: backpatch_count_def split: vm_write.splits)

lemma well_patched_iff:
  "well_patched ws \<longleftrightarrow> (\<forall>a i. Emitted a i \<in> set ws \<longrightarrow> is_placeholder i \<longrightarrow>
      backpatch_count ws a = 1 \<or> (op i = JPC \<and> backpatch_count ws a = 2))"
  unfolding well_patched_def list_all_iff
  by (auto split: vm_write.splits)

lemma well_patched_Nil [simp]: "well_patched []"
  by (simp add: well_patched_def)

lemma well_patched_append:
  assumes "well_patched xs" "well_patched ys"
    and "\<forall>w\<in>set xs. addr_of w < k" "\<forall>w\<in>set ys. k \<le> addr_of w"
  shows "well_patched (xs @ ys)"
proof -
  have x: "backpatch_count ys a = 0" if "Emitted a i \<in> set xs" for a i
    using that assms(3,4) by (intro backpatch_count_zero) fastforce
  have y: "backpatch_count xs a = 0" if "Emitted a i \<in> set ys" for a i
    using that assms(3,4) by (intro backpatch_count_zero) fastforce
  show ?thesis
    using assms(1,2) x y unfolding well_patched_iff by auto
qed

lemma inv_refl [simp]: "run_inv e s s"
  by (simp add: run_inv_def)

lemma inv_weaken: "run_inv 0 s t \<Longrightarrow> run_inv e s t"
  by (simp add: run_inv_def)

lemma inv_follows: "run_inv e s t \<Longrightarrow> follows s t"
  by (simp add: run_inv_def)

lemma inv_seq:
  assumes "run_inv 0 s t" "run_inv e t u"
  shows "run_inv e s u"
proof -
  have f: "follows s t" "follows t u" using assms by (simp_all add: run_inv_def)
  have l: "log_since s u = log_since s t @ log_since t u"
    by (rule log_since_trans [OF f])
  have "well_patched (log_since s u)" if "e = 0" "0 < nextCodeIndex s"
  proof -
    have "0 < nextCodeIndex t" using f(1) that by (auto simp: follows_def)
    then have "well_patched (log_since s t)" "well_patched (log_since t u)"
      using assms that by (simp_all add: run_inv_def)
    moreover have "\<forall>w\<in>set (log_since s t). addr_of w < nextCodeIndex t"
      using f(1) by (simp add: follows_def)
    moreover have "\<forall>w\<in>set (log_since t u). nextCodeIndex t \<le> addr_of w"
      using f(2) by (simp add: follows_def)
    ultimately show ?thesis unfolding l by (rule well_patched_append)
  qed
  then show ?thesis using follows_trans [OF f] by (simp add: run_inv_def)
qed

lemma follows_same_code:
  assumes "follows s t" "same_code t t'"
  shows "follows s t'"
proof -
  have "log_since s t' = log_since s t"
    using assms(2) by (simp add: log_since_def same_code_def)
  then show ?thesis
    using assms unfolding follows_def same_code_def by auto
qed

lemma inv_same_code:
  assumes "run_inv e s t" "same_code t t'"
  shows "run_inv e s t'"
proof -
  have "log_since s t' = log_since s t"
    using assms(2) by (simp add: log_since_def same_code_def)
  then show ?thesis
    using assms follows_same_code [of s t t'] by (simp add: run_inv_def)
qed

lemma same_code_simps [simp]:
  "same_code t (nextToken t)"
  "same_code t (heap_upd p f t)"
  "same_code t (addSymbol y t)"
  "same_code t (snd (malloc_Symbol t))"
  "same_code t (t\<lparr>currentScope := sc, currentLevel := lv\<rparr>)"
  "same_code t (t\<lparr>currentLevel := lv, currentScope := sc\<rparr>)"
  "same_code t (t\<lparr>heap_top := k\<rparr>)"
  by (simp_all add: same_code_def nextToken_def heap_upd_def addSymbol_def malloc_Symbol_def)

lemma inv_steps:
  "run_inv e s t \<Longrightarrow> run_inv e s (nextToken t)"
  "run_inv e s t \<Longrightarrow> run_inv e s (heap_upd p f t)"
  "run_inv e s t \<Longrightarrow> run_inv e s (addSymbol y t)"
  "run_inv e s t \<Longrightarrow> run_inv e s (t\<lparr>currentScope := sc, currentLevel := lv\<rparr>)"
  "run_inv e s t \<Longrightarrow> run_inv e s (t\<lparr>currentLevel := lv, currentScope := sc\<rparr>)"
  "run_inv e s t \<Longrightarrow> run_inv e s (t\<lparr>heap_top := k\<rparr>)"
  by (erule inv_same_code, simp)+

lemma emit_Inr:
  assumes "emit OP R L M t = Inr (a, t')"
  shows "a = nextCodeIndex t" "nextCodeIndex t < length (vmCode t)"
    "t' = t\<lparr>vmCode := (vmCode t)[nextCodeIndex t := \<lparr>op = OP, r = R, l = L, m = M\<rparr>],
          nextCodeIndex := Suc (nextCodeIndex t),
          vm_log := vm_log t @ [Emitted (nextCodeIndex t) \<lparr>op = OP, r = R, l = L, m = M\<rparr>]\<rparr>"
  using assms by (auto simp: emit_def MAX_CODE_LENGTH_def split: if_splits)

lemma emit_follows:
  assumes "emit OP R L M t = Inr (a, t')"
  shows "follows t t'" "log_since t t' = [Emitted (nextCodeIndex t) \<lparr>op = OP, r = R, l = L, m = M\<rparr>]"
    "nextCodeIndex t' = Suc (nextCodeIndex t)"
  using emit_Inr [OF assms] by (auto simp: follows_def log_since_def)

lemma inv_emit:
  assumes "emit OP R L M t = Inr (a, t')" "\<not> is_placeholder \<lparr>op = OP, r = R, l = L, m = M\<rparr>"
  shows "run_inv e t t'"
  using emit_follows [OF assms(1)] assms(2)
  by (simp add: run_inv_def well_patched_iff)

lemma ends_ok_Inl [simp]: "ends_ok s (Inl f)"
  by (simp add: ends_ok_def)

lemma ends_ok_Inr: "run_inv 0 s t \<Longrightarrow> ends_ok s (Inr (e, t))"
  by (simp add: ends_ok_def inv_weaken)

lemma ends_ok_later: "ends_ok t x \<Longrightarrow> run_inv 0 s t \<Longrightarrow> ends_ok s x"
  by (auto simp: ends_ok_def intro: inv_seq)

lemma ends_ok_call: "sound f \<Longrightarrow> run_inv 0 s t \<Longrightarrow> ends_ok s (f t)"
  by (auto simp: sound_def intro: ends_ok_later)

lemma ends_ok_on_ok:
  assumes "ends_ok s x" "\<And>s1. x = Inr (0, s1) \<Longrightarrow> run_inv 0 s s1 \<Longrightarrow> ends_ok s (k s1)"
  shows "ends_ok s (on_ok x k)"
  using assms by (auto simp: ends_ok_def on_ok_def split: sum.splits if_splits)

lemma ends_ok_bind_emit:
  assumes "run_inv 0 s t" "\<not> is_placeholder \<lparr>op = OP, r = R, l = L, m = M\<rparr>"
    and "\<And>a t'. emit OP R L M t = Inr (a, t') \<Longrightarrow> run_inv 0 s t' \<Longrightarrow> ends_ok s (f a t')"
  shows "ends_ok s (bind_r (emit OP R L M t) f)"
proof (cases "emit OP R L M t")
  case (Inl e)
  then show ?thesis by (simp add: bind_r_def)
next
  case (Inr p)
  obtain a t' where p: "p = (a, t')" by (cases p)
  have "run_inv 0 t t'" using Inr p assms(2) by (auto intro: inv_emit)
  with assms(1) have "run_inv 0 s t'" by (rule inv_seq)
  then show ?thesis using Inr p assms(3) by (simp add: bind_r_def)
qed

lemma ends_ok_if:
  "(c \<Longrightarrow> ends_ok s a) \<Longrightarrow> (\<not> c \<Longrightarrow> ends_ok s b) \<Longrightarrow> ends_ok s (if c then a else b)"
  by simp

lemma ends_ok_Let: "ends_ok s (f v) \<Longrightarrow> ends_ok s (Let v f)"
  by simp

lemma ends_ok_case_option:
  "ends_ok s a \<Longrightarrow> (\<And>y. ends_ok s (f y)) \<Longrightarrow> ends_ok s (case x of None \<Rightarrow> a | Some y \<Rightarrow> f y)"
  by (cases x) simp_all

lemmas vcg = ends_ok_Inl ends_ok_Inr ends_ok_on_ok ends_ok_bind_emit ends_ok_if
  ends_ok_Let ends_ok_case_option inv_steps inv_refl

lemma not_placeholder [simp]:
  "\<not> is_placeholder \<lparr>op = CAL, r = R, l = L, m = M\<rparr>"
  "\<not> is_placeholder \<lparr>op = LOD, r = R, l = L, m = M\<rparr>"
  "\<not> is_placeholder \<lparr>op = STO, r = R, l = L, m = M\<rparr>"
  "\<not> is_placeholder \<lparr>op = LIT, r = R, l = L, m = M\<rparr>"
  "\<not> is_placeholder \<lparr>op = INC, r = R, l = L, m = M\<rparr>"
  "\<not> is_placeholder \<lparr>op = RTN, r = R, l = L, m = M\<rparr>"
  "\<not> is_placeholder \<lparr>op = SIO_WRITE, r = R, l = L, m = M\<rparr>"
  "\<not> is_placeholder \<lparr>op = SIO_READ, r = R, l = L, m = M\<rparr>"
  "\<not> is_placeholder \<lparr>op = SIO_HALT, r = R, l = L, m = M\<rparr>"
  "\<not> is_placeholder \<lparr>op = NEG, r = R, l = L, m = M\<rparr>"
  "\<not> is_placeholder \<lparr>op = ADD, r = R, l = L, m = M\<rparr>"
  "\<not> is_placeholder \<lparr>op = SUB, r = R, l = L, m = M\<rparr>"
  "\<not> is_placeholder \<lparr>op = MUL, r = R, l = L, m = M\<rparr>"
  "\<not> is_placeholder \<lparr>op = DIV, r = R, l = L, m = M\<rparr>"
  "\<not> is_placeholder \<lparr>op = ODD, r = R, l = L, m = M\<rparr>"
  "\<not> is_placeholder \<lparr>op = EQL, r = R, l = L, m = M\<rparr>"
  "\<not> is_placeholder \<lparr>op = NEQ, r = R, l = L, m = M\<rparr>"
  "\<not> is_placeholder \<lparr>op = LSS, r = R, l = L, m = M\<rparr>"
  "\<not> is_placeholder \<lparr>op = LEQ, r = R, l = L, m = M\<rparr>"
  "\<not> is_placeholder \<lparr>op = GTR, r = R, l = L, m = M\<rparr>"
  "\<not> is_placeholder \<lparr>op = GEQ, r = R, l = L, m = M\<rparr>"
  by (simp_all add: is_placeholder_def)

lemma soundI: "(\<And>s. ends_ok s (f s)) \<Longrightarrow> sound f"
  by (simp add: sound_def)

lemma bind_r_if: "bind_r (if c then x else y) f = (if c then bind_r x f else bind_r y f)"
  by simp

lemma sound_statement_call: "sound statement_call"
  unfolding statement_call_def by (intro soundI vcg not_placeholder)

lemma sound_statement_write: "sound statement_write"
  unfolding statement_write_def by (intro soundI vcg not_placeholder)

lemma sound_statement_read: "sound statement_read"
  unfolding statement_read_def by (intro soundI vcg not_placeholder)

lemma sound_statement_ident:
  assumes "sound expr"
  shows "sound (statement_ident expr)"
  unfolding statement_ident_def
  by (intro soundI vcg not_placeholder assms [THEN ends_ok_call])

lemma sound_statement_begin:
  assumes "sound stmt" "sound loop"
  shows "sound (statement_begin stmt loop)"
  unfolding statement_begin_def
  by (intro soundI vcg not_placeholder assms [THEN ends_ok_call])

lemma sound_condition_relop: "sound condition_relop"
  unfolding condition_relop_def Let_def
  by (rule soundI) (auto intro!: ends_ok_Inr ends_ok_bind_emit inv_steps)

lemma sound_condition_body:
  assumes "sound expr"
  shows "sound (condition_body expr)"
  unfolding condition_body_def
  by (intro soundI vcg not_placeholder assms [THEN ends_ok_call]
      sound_condition_relop [THEN ends_ok_call])

lemma sound_expression_body:
  assumes "sound trm" "\<And>opr. sound (loop opr)"
  shows "sound (expression_body trm loop)"
  unfolding expression_body_def
  by (intro soundI vcg not_placeholder assms [THEN ends_ok_call])

lemma sound_factor_body:
  assumes "sound expr"
  shows "sound (factor_body expr)"
  unfolding factor_body_def bind_r_if
  by (intro soundI vcg not_placeholder assms [THEN ends_ok_call])

lemma on_okE:
  assumes "on_ok x k = Inr (e, s')"
  obtains (err) "e \<noteq> 0" "x = Inr (e, s')" | (ok) s1 where "x = Inr (0, s1)" "k s1 = Inr (e, s')"
  using assms by (auto simp: on_ok_def split: sum.splits if_splits)

lemma bind_rE:
  assumes "bind_r x f = Inr y"
  obtains a s1 where "x = Inr (a, s1)" "f a s1 = Inr y"
  using assms by (auto simp: bind_r_def split: sum.splits)

lemma backpatch_fields [simp]:
  "tokenList (backpatch j v t) = tokenList t"
  "currentTokenInd (backpatch j v t) = currentTokenInd t"
  "nextCodeIndex (backpatch j v t) = nextCodeIndex t"
  "length (vmCode (backpatch j v t)) = length (vmCode t)"
  "vm_log (backpatch j v t) = vm_log t @ [Backpatched j v]"
  "getCurrentTokenType (backpatch j v t) = getCurrentTokenType t"
  by (simp_all add: backpatch_def getCurrentTokenType_def getCurrentToken_def)

lemma nextToken_fields [simp]:
  "tokenList (nextToken t) = tokenList t"
  "currentTokenInd (nextToken t) = Suc (currentTokenInd t)"
  "nextCodeIndex (nextToken t) = nextCodeIndex t"
  "vmCode (nextToken t) = vmCode t"
  "vm_log (nextToken t) = vm_log t"
  by (simp_all add: nextToken_def)

lemma follows_backpatch:
  assumes "follows s t" "nextCodeIndex s \<le> j" "j < nextCodeIndex t"
  shows "follows s (backpatch j v t)"
    and "log_since s (backpatch j v t) = log_since s t @ [Backpatched j v]"
proof -
  have l: "vm_log t = vm_log s @ log_since s t" using assms(1) by (simp add: follows_def)
  have "vm_log (backpatch j v t) = vm_log s @ (log_since s t @ [Backpatched j v])"
    by (subst backpatch_fields, subst l) simp
  then have "drop (length (vm_log s)) (vm_log (backpatch j v t)) = log_since s t @ [Backpatched j v]"
    by (metis append_eq_conv_conj)
  then show 2: "log_since s (backpatch j v t) = log_since s t @ [Backpatched j v]"
    by (simp only: log_since_def [of s "backpatch j v t"])
  have "vmCode (backpatch j v t) ! i = vmCode s ! i" if "i < nextCodeIndex s" for i
  proof -
    have "i \<noteq> j" using that assms(2) by simp
    then have "vmCode (backpatch j v t) ! i = vmCode t ! i" by (simp add: backpatch_def)
    then show ?thesis using assms(1) that by (simp add: follows_def)
  qed
  then show "follows s (backpatch j v t)"
    unfolding follows_def 2 using assms by (auto simp: follows_def)
qed

lemma well_patched_bracket:
  assumes "well_patched ws" "\<forall>w\<in>set ws. j < addr_of w"
  shows "well_patched (Emitted j i # ws @ [Backpatched j v])"
    and "backpatch_count (Emitted j i # ws @ [Backpatched j v]) j = 1"
proof -
  have z: "backpatch_count ws j = 0"
    using assms(2) by (intro backpatch_count_zero) auto
  have c: "backpatch_count (Emitted j i # ws @ [Backpatched j v]) a
      = backpatch_count ws a + (if a = j then 1 else 0)" for a
    by (simp add: backpatch_count_def)
  show "backpatch_count (Emitted j i # ws @ [Backpatched j v]) j = 1"
    by (simp add: c z)
  have "a \<noteq> j" if "Emitted a i' \<in> set ws" for a i'
    using assms(2) that by fastforce
  then show "well_patched (Emitted j i # ws @ [Backpatched j v])"
    using assms(1) unfolding well_patched_iff c by (auto simp: z)
qed

lemma well_patched_again:
  assumes "well_patched ws" "backpatch_count ws j \<le> 1"
    and "\<And>i. Emitted j i \<in> set ws \<Longrightarrow> op i = JPC"
  shows "well_patched (ws @ [Backpatched j v])"
proof -
  have c: "backpatch_count (ws @ [Backpatched j v]) a
      = backpatch_count ws a + (if a = j then 1 else 0)" for a
    by (simp add: backpatch_count_def)
  show ?thesis
    unfolding well_patched_iff c
  proof (intro allI impI)
    fix a i
    assume "Emitted a i \<in> set (ws @ [Backpatched j v])" and p: "is_placeholder i"
    then have m: "Emitted a i \<in> set ws" by simp
    with assms(1) p have w: "backpatch_count ws a = 1
        \<or> (op i = JPC \<and> backpatch_count ws a = 2)"
      unfolding well_patched_iff by blast
    show "backpatch_count ws a + (if a = j then 1 else 0) = 1
        \<or> (op i = JPC \<and> backpatch_count ws a + (if a = j then 1 else 0) = 2)"
    proof (cases "a = j")
      case True
      then have "op i = JPC" using m assms(3) by blast
      moreover have "backpatch_count ws a = 1" using w assms(2) True by auto
      ultimately show ?thesis using True by simp
    next
      case False
      then show ?thesis using w by simp
    qed
  qed
qed

lemma patched_inv: "patched s t \<Longrightarrow> run_inv e s t"
  by (simp add: patched_def run_inv_def)

lemma inv_patched: "run_inv 0 s t \<Longrightarrow> 0 < nextCodeIndex s \<Longrightarrow> patched s t"
  by (simp add: patched_def run_inv_def)

lemma patched_follows: "patched s t \<Longrightarrow> follows s t"
  by (simp add: patched_def)

lemma patched_trans:
  assumes "patched s t" "patched t u"
  shows "patched s u"
proof -
  have f: "follows s t" "follows t u" using assms by (simp_all add: patched_def)
  have l: "log_since s u = log_since s t @ log_since t u"
    by (rule log_since_trans [OF f])
  have "well_patched (log_since s t)" "well_patched (log_since t u)"
    using assms by (simp_all add: patched_def)
  moreover have "\<forall>w\<in>set (log_since s t). addr_of w < nextCodeIndex t"
    using f(1) by (simp add: follows_def)
  moreover have "\<forall>w\<in>set (log_since t u). nextCodeIndex t \<le> addr_of w"
    using f(2) by (simp add: follows_def)
  ultimately have "well_patched (log_since s u)"
    unfolding l by (rule well_patched_append)
  then show ?thesis using follows_trans [OF f] by (simp add: patched_def)
qed

lemma count_later:
  assumes "follows s t" "follows t u" "j < nextCodeIndex t"
  shows "backpatch_count (log_since s u) j = backpatch_count (log_since s t) j"
proof -
  have "\<forall>w\<in>set (log_since t u). addr_of w \<noteq> j"
    using assms(2,3) by (fastforce simp: follows_def)
  then have "backpatch_count (log_since t u) j = 0" by (rule backpatch_count_zero)
  then show ?thesis by (simp add: log_since_trans [OF assms(1,2)])
qed

lemma emitted_later:
  assumes "follows s t" "follows t u" "j < nextCodeIndex t"
    and "Emitted j i \<in> set (log_since s u)"
  shows "Emitted j i \<in> set (log_since s t)"
proof -
  have "\<forall>w\<in>set (log_since t u). addr_of w \<noteq> j"
    using assms(2,3) by (fastforce simp: follows_def)
  then have "Emitted j i \<notin> set (log_since t u)" by fastforce
  then show ?thesis using assms(4) by (simp add: log_since_trans [OF assms(1,2)])
qed

lemma bracket:
  assumes "emit OP R L M t = Inr (j, t1)" "patched t1 t2"
  shows "patched t (backpatch j v t2)"
    and "backpatch_count (log_since t (backpatch j v t2)) j = 1"
    and "\<And>i. Emitted j i \<in> set (log_since t (backpatch j v t2))
          \<Longrightarrow> i = \<lparr>op = OP, r = R, l = L, m = M\<rparr>"
proof -
  note e = emit_follows [OF assms(1)]
  have j: "j = nextCodeIndex t" using assms(1) by (rule emit_Inr)
  have f12: "follows t1 t2" using assms(2) by (simp add: patched_def)
  have f: "follows t t2" using e(1) f12 by (rule follows_trans)
  have l: "log_since t t2 = Emitted j \<lparr>op = OP, r = R, l = L, m = M\<rparr> # log_since t1 t2"
    using log_since_trans [OF e(1) f12] e(2) j by simp
  have lt: "j < nextCodeIndex t2" using f12 e(3) j by (simp add: follows_def)
  note b = follows_backpatch [OF f, of j v]
  have ll: "log_since t (backpatch j v t2)
     = Emitted j \<lparr>op = OP, r = R, l = L, m = M\<rparr> # log_since t1 t2 @ [Backpatched j v]"
    using b(2) j lt l by simp
  have w: "well_patched (log_since t1 t2)" using assms(2) by (simp add: patched_def)
  have a: "\<forall>w\<in>set (log_since t1 t2). j < addr_of w"
    using f12 e(3) j by (fastforce simp: follows_def)
  show "patched t (backpatch j v t2)"
    unfolding patched_def ll using b(1) j lt well_patched_bracket(1) [OF w a] by simp
  show "backpatch_count (log_since t (backpatch j v t2)) j = 1"
    unfolding ll by (rule well_patched_bracket(2) [OF w a])
  show "i = \<lparr>op = OP, r = R, l = L, m = M\<rparr>"
    if "Emitted j i \<in> set (log_since t (backpatch j v t2))" for i
    using that a unfolding ll by fastforce
qed

lemma patched_again:
  assumes "patched s t" "backpatch_count (log_since s t) j \<le> 1"
    "nextCodeIndex s \<le> j" "j < nextCodeIndex t"
    and "\<And>i. Emitted j i \<in> set (log_since s t) \<Longrightarrow> op i = JPC"
  shows "patched s (backpatch j v t)"
proof -
  have f: "follows s t" using assms(1) by (simp add: patched_def)
  note b = follows_backpatch [OF f assms(3,4), of v]
  have "well_patched (log_since s t @ [Backpatched j v])"
    using assms(1,2,5) by (intro well_patched_again) (simp_all add: patched_def)
  then show ?thesis using b by (simp add: patched_def)
qed

lemma statement_if_cases:
  assumes "statement_if cond stmt s = Inr (e, s')"
  obtains
    (cond_err) "e \<noteq> 0" "cond (nextToken s) = Inr (e, s')"
  | (no_then) "cond (nextToken s) = Inr (0, s')" "e = 9"
  | (then_err) s1 a s3 where "cond (nextToken s) = Inr (0, s1)"
      "emit JPC 0 0 0 (nextToken s1) = Inr (a, s3)" "e \<noteq> 0" "stmt s3 = Inr (e, s')"
  | (no_else) s1 a s3 s4 where "cond (nextToken s) = Inr (0, s1)"
      "emit JPC 0 0 0 (nextToken s1) = Inr (a, s3)"
      "stmt s3 = Inr (0, s4)" "getCurrentTokenType s4 \<noteq> elsesym"
      "e = 0" "s' = backpatch (nextCodeIndex s1) (int (nextCodeIndex s4)) s4"
  | (else_err) s1 a s3 s4 a2 s6 where "cond (nextToken s) = Inr (0, s1)"
      "emit JPC 0 0 0 (nextToken s1) = Inr (a, s3)"
      "stmt s3 = Inr (0, s4)" "getCurrentTokenType s4 = elsesym"
      "emit JMP 0 0 0 (backpatch (nextCodeIndex s1) (int (nextCodeIndex s4)) s4) = Inr (a2, s6)"
      "e \<noteq> 0"
      "stmt (backpatch (nextCodeIndex s4) (int (nextCodeIndex s6)) (nextToken s6)) = Inr (e, s')"
  | (else_ok) s1 a s3 s4 a2 s6 s9 where "cond (nextToken s) = Inr (0, s1)"
      "emit JPC 0 0 0 (nextToken s1) = Inr (a, s3)"
      "stmt s3 = Inr (0, s4)" "getCurrentTokenType s4 = elsesym"
      "emit JMP 0 0 0 (backpatch (nextCodeIndex s1) (int (nextCodeIndex s4)) s4) = Inr (a2, s6)"
      "stmt (backpatch (nextCodeIndex s4) (int (nextCodeIndex s6)) (nextToken s6)) = Inr (0, s9)"
      "e = 0" "s' = backpatch (nextCodeIndex s1) (int (nextCodeIndex s9)) s9"
  using assms unfolding statement_if_def Let_def
  by (auto elim!: on_okE bind_rE split: if_splits)

lemma emit_address: "emit OP R L M t = Inr (a, t') \<Longrightarrow> a = nextCodeIndex t"
  by (rule emit_Inr)

lemma inv_err: "follows s t \<Longrightarrow> e \<noteq> 0 \<Longrightarrow> run_inv e s t"
  by (simp add: run_inv_def)

lemma soundD: "sound f \<Longrightarrow> f t = Inr (e, t') \<Longrightarrow> run_inv e t t'"
  by (simp add: sound_def ends_ok_def)

lemma follows_nextToken [simp]: "follows t (nextToken t)"
  by (rule follows_same_code [OF follows_refl]) simp

lemma patched_refl [simp]: "patched t t"
  by (simp add: patched_def)

lemma patched_nextToken [simp]: "patched t (nextToken t)"
  by (simp add: patched_def log_since_def)

lemma sound_statement_if:
  assumes c: "sound cond" and st: "sound stmt"
  shows "sound (statement_if cond stmt)"
proof (rule soundI, unfold ends_ok_def, intro allI impI)
  fix s e s'
  assume "statement_if cond stmt s = Inr (e, s')"
  then show "run_inv e s s'"
  proof (cases rule: statement_if_cases)
    case cond_err
    then show ?thesis
      using soundD [OF c] by (blast intro: inv_seq inv_steps inv_refl)
  next
    case no_then
    then show ?thesis
      using soundD [OF c] by (blast intro: inv_seq inv_steps inv_refl inv_weaken)
  next
    case (then_err s1 a s3)
    have "follows s s1"
      using soundD [OF c then_err(1)] by (blast intro: follows_trans follows_nextToken inv_follows)
    moreover have "follows s1 (nextToken s1)" by simp
    moreover have "follows (nextToken s1) s3" using then_err(2) by (rule emit_follows)
    moreover have "follows s3 s'" using soundD [OF st then_err(4)] by (rule inv_follows)
    ultimately have "follows s s'" by (blast intro: follows_trans)
    then show ?thesis using then_err(3) by (rule inv_err)
  next
    case (no_else s1 a s3 s4)
    have i: "run_inv 0 s (nextToken s1)"
      using soundD [OF c no_else(1)] by (blast intro: inv_seq inv_steps inv_refl)
    have a: "a = nextCodeIndex s1" using emit_address [OF no_else(2)] by simp
    have "0 < nextCodeIndex s3" using emit_follows(3) [OF no_else(2)] by simp
    then have "patched s3 s4" using soundD [OF st no_else(3)] by (intro inv_patched)
    with no_else(2) have "patched (nextToken s1) (backpatch a (int (nextCodeIndex s4)) s4)"
      by (rule bracket)
    then show ?thesis
      unfolding no_else a using i by (blast intro: inv_seq patched_inv)
  next
    case (else_err s1 a s3 s4 a2 s6)
    let ?s5 = "backpatch (nextCodeIndex s1) (int (nextCodeIndex s4)) s4"
    let ?s8 = "backpatch (nextCodeIndex s4) (int (nextCodeIndex s6)) (nextToken s6)"
    have "follows s (nextToken s1)"
      using soundD [OF c else_err(1)] by (blast intro: follows_trans follows_nextToken inv_follows)
    have a: "a = nextCodeIndex s1" using emit_address [OF else_err(2)] by simp
    have a2: "a2 = nextCodeIndex s4" using emit_address [OF else_err(5)] by simp
    have "0 < nextCodeIndex s3" using emit_follows(3) [OF else_err(2)] by simp
    then have "patched s3 s4" using soundD [OF st else_err(3)] by (intro inv_patched)
    with else_err(2) have "patched (nextToken s1) (backpatch a (int (nextCodeIndex s4)) s4)"
      by (rule bracket)
    then have "follows (nextToken s1) ?s5" unfolding a by (rule patched_follows)
    moreover have "patched ?s5 (backpatch a2 (int (nextCodeIndex s6)) (nextToken s6))"
      using else_err(5) by (rule bracket) simp
    then have "follows ?s5 ?s8" unfolding a2 by (rule patched_follows)
    moreover have "follows ?s8 s'" using soundD [OF st else_err(7)] by (rule inv_follows)
    ultimately have "follows s s'"
      using \<open>follows s (nextToken s1)\<close> by (blast intro: follows_trans)
    then show ?thesis using else_err(6) by (rule inv_err)
  next
    case (else_ok s1 a s3 s4 a2 s6 s9)
    let ?s5 = "backpatch (nextCodeIndex s1) (int (nextCodeIndex s4)) s4"
    let ?s8 = "backpatch (nextCodeIndex s4) (int (nextCodeIndex s6)) (nextToken s6)"
    have i: "run_inv 0 s (nextToken s1)"
      using soundD [OF c else_ok(1)] by (blast intro: inv_seq inv_steps inv_refl)
    have a: "a = nextCodeIndex s1" using emit_address [OF else_ok(2)] by simp
    have a2: "a2 = nextCodeIndex s4" using emit_address [OF else_ok(5)] by simp
    have n3: "nextCodeIndex s3 = Suc (nextCodeIndex s1)"
      using emit_follows(3) [OF else_ok(2)] by simp
    then have "patched s3 s4" using soundD [OF st else_ok(3)] by (intro inv_patched) simp_all
    note br = bracket [OF else_ok(2) \<open>patched s3 s4\<close>, where v = "int (nextCodeIndex s4)"]
    have p5: "patched (nextToken s1) ?s5"
      and c5: "backpatch_count (log_since (nextToken s1) ?s5) (nextCodeIndex s1) = 1"
      using br(1,2) unfolding a by simp_all
    have o5: "op i = JPC" if "Emitted (nextCodeIndex s1) i \<in> set (log_since (nextToken s1) ?s5)"
      for i
      using br(3) [of i] that unfolding a by simp
    have "patched ?s5 (backpatch a2 (int (nextCodeIndex s6)) (nextToken s6))"
      using else_ok(5) by (rule bracket) simp
    then have p8: "patched ?s5 ?s8" unfolding a2 .
    have "0 < nextCodeIndex ?s8" using emit_follows(3) [OF else_ok(5)] by simp
    then have p9: "patched ?s8 s9" using soundD [OF st else_ok(6)] by (intro inv_patched)
    have p59: "patched ?s5 s9" using p8 p9 by (rule patched_trans)
    have p: "patched (nextToken s1) s9" using p5 p59 by (rule patched_trans)
    have lt: "nextCodeIndex s1 < nextCodeIndex ?s5"
      using patched_follows [OF \<open>patched s3 s4\<close>] n3 by (simp add: follows_def)
    have "backpatch_count (log_since (nextToken s1) s9) (nextCodeIndex s1) = 1"
      using count_later [OF patched_follows [OF p5] patched_follows [OF p59] lt] c5 by simp
    moreover have "nextCodeIndex s1 < nextCodeIndex s9"
      using lt patched_follows [OF p59] by (simp add: follows_def)
    moreover have "op i = JPC"
      if "Emitted (nextCodeIndex s1) i \<in> set (log_since (nextToken s1) s9)" for i
      using emitted_later [OF patched_follows [OF p5] patched_follows [OF p59] lt that]
      by (rule o5)
    ultimately have "patched (nextToken s1) (backpatch (nextCodeIndex s1) (int (nextCodeIndex s9)) s9)"
      using p by (intro patched_again) simp_all
    then show ?thesis
      unfolding else_ok using i by (blast intro: inv_seq patched_inv)
  qed
qed

lemma inv_malloc: "run_inv e s t \<Longrightarrow> run_inv e s (snd (malloc_Symbol t))"
  by (erule inv_same_code) simp

lemma ends_ok_const_declaration: "ends_ok s (const_declaration s)"
proof (induction s rule: const_declaration.induct)
  case (1 s)
  note IH = "1.IH" [OF prod.collapse refl _ refl _ refl _ refl refl]
  show ?case
    apply (subst const_declaration.simps)
    apply (simp only: case_prod_beta Let_def)
    apply (intro vcg inv_malloc)
    apply (rule ends_ok_later [OF IH])
    apply (assumption | intro vcg inv_malloc)+
    done
qed

lemma sound_const_declaration: "sound const_declaration"
  by (rule soundI) (rule ends_ok_const_declaration)

lemma ends_ok_var_declaration: "ends_ok s (var_declaration s)"
proof (induction s rule: var_declaration.induct)
  case (1 s)
  note IH = "1.IH" [OF prod.collapse refl _ refl _ prod.collapse refl]
  show ?case
    apply (subst var_declaration.simps)
    apply (simp only: bind_r_def [symmetric])
    apply (simp only: case_prod_beta Let_def)
    apply (intro vcg inv_malloc not_placeholder)
    subgoal premises p for a t'
      using IH [OF p(1), of "(a, t')"] p(2-)
      by (auto intro: ends_ok_later vcg)
    apply (assumption | intro vcg inv_malloc)+
    done
qed

lemma sound_var_declaration: "sound var_declaration"
  by (rule soundI) (rule ends_ok_var_declaration)

lemma sound_all_sound: "sound_all f \<Longrightarrow> sound f"
  by (auto simp: sound_all_def sound_def ends_ok_def run_inv_def patched_def)

lemma follows_bracket:
  assumes "emit OP R L M t = Inr (j, t1)" "follows t1 t2"
  shows "follows t (backpatch j v t2)"
proof -
  note e = emit_follows [OF assms(1)]
  have j: "j = nextCodeIndex t" using assms(1) by (rule emit_Inr)
  have "follows t t2" using e(1) assms(2) by (rule follows_trans)
  moreover have "j < nextCodeIndex t2" using assms(2) e(3) j by (simp add: follows_def)
  ultimately show ?thesis using j by (intro follows_backpatch) simp_all
qed

lemma patched_emit:
  assumes "emit OP R L M t = Inr (a, t')" "\<not> is_placeholder \<lparr>op = OP, r = R, l = L, m = M\<rparr>"
  shows "patched t t'"
  using emit_follows [OF assms(1)] assms(2)
  by (simp add: patched_def well_patched_iff)

lemma statement_while_cases:
  assumes "statement_while cond stmt s = Inr (e, s')"
  obtains
    (cond_err) "e \<noteq> 0" "cond (nextToken s) = Inr (e, s')"
  | (no_do) s1 a where "cond (nextToken s) = Inr (0, s1)"
      "emit JPC 0 0 0 s1 = Inr (a, s')" "e = 11"
  | (body_err) s1 a s2 where "cond (nextToken s) = Inr (0, s1)"
      "emit JPC 0 0 0 s1 = Inr (a, s2)" "e \<noteq> 0" "stmt (nextToken s2) = Inr (e, s')"
  | (ok) s1 a s2 s3 a4 s4 where "cond (nextToken s) = Inr (0, s1)"
      "emit JPC 0 0 0 s1 = Inr (a, s2)" "stmt (nextToken s2) = Inr (0, s3)"
      "emit JMP 0 0 (int (nextCodeIndex s)) s3 = Inr (a4, s4)"
      "e = 0" "s' = backpatch (nextCodeIndex s1) (int (nextCodeIndex s4)) s4"
  using assms unfolding statement_while_def Let_def
  by (auto elim!: on_okE bind_rE split: if_splits)

lemma sound_statement_while:
  assumes c: "sound cond" and st: "sound stmt"
  shows "sound (statement_while cond stmt)"
proof (rule soundI, unfold ends_ok_def, intro allI impI)
  fix s e s'
  assume "statement_while cond stmt s = Inr (e, s')"
  then show "run_inv e s s'"
  proof (cases rule: statement_while_cases)
    case cond_err
    then show ?thesis
      using soundD [OF c] by (blast intro: inv_seq inv_steps inv_refl)
  next
    case (no_do s1 a)
    have "follows s s1"
      using soundD [OF c no_do(1)] by (blast intro: follows_trans follows_nextToken inv_follows)
    moreover have "follows s1 s'" using no_do(2) by (rule emit_follows)
    ultimately have "follows s s'" by (rule follows_trans)
    then show ?thesis using no_do(3) by (intro inv_err) simp_all
  next
    case (body_err s1 a s2)
    have "follows s s1"
      using soundD [OF c body_err(1)] by (blast intro: follows_trans follows_nextToken inv_follows)
    moreover have "follows s1 s2" using body_err(2) by (rule emit_follows)
    moreover have "follows s2 (nextToken s2)" by simp
    moreover have "follows (nextToken s2) s'"
      using soundD [OF st body_err(4)] by (rule inv_follows)
    ultimately have "follows s s'" by (blast intro: follows_trans)
    then show ?thesis using body_err(3) by (rule inv_err)
  next
    case (ok s1 a s2 s3 a4 s4)
    have i: "run_inv 0 s s1"
      using soundD [OF c ok(1)] by (blast intro: inv_seq inv_steps inv_refl)
    have a: "a = nextCodeIndex s1" using ok(2) by (rule emit_address)
    have f23: "follows s2 s3"
      using soundD [OF st ok(3)] by (blast intro: follows_trans follows_nextToken inv_follows)
    have f34: "follows s3 s4" using ok(4) by (rule emit_follows)
    have f: "follows s1 s'"
      unfolding ok(6) a [symmetric]
      using ok(2) follows_trans [OF f23 f34] by (rule follows_bracket)
    show ?thesis
    proof (cases "0 < nextCodeIndex s")
      case False
      then show ?thesis
        using follows_trans [OF inv_follows [OF i] f] by (simp add: run_inv_def)
    next
      case True
      have "0 < nextCodeIndex (nextToken s2)" using emit_follows(3) [OF ok(2)] by simp
      then have "patched (nextToken s2) s3" using soundD [OF st ok(3)] by (intro inv_patched)
      then have "patched s2 s3" by (blast intro: patched_trans patched_nextToken)
      moreover have "patched s3 s4"
        using ok(4) True by (intro patched_emit) (auto simp: is_placeholder_def)
      ultimately have "patched s2 s4" by (rule patched_trans)
      with ok(2) have "patched s1 (backpatch a (int (nextCodeIndex s4)) s4)" by (rule bracket)
      then show ?thesis
        unfolding ok(6) a using i ok(5) by (blast intro: inv_seq patched_inv)
    qed
  qed
qed

lemma sound_optional:
  assumes "sound f" "(if c then f s else Inr (0, s)) = Inr (e, s')"
  shows "run_inv e s s'"
  using assms soundD [OF assms(1)] by (auto split: if_splits)

lemma block_cases:
  assumes "block (Suc n) s = Inr (e, s')"
  obtains
    (const_err) j s0 where "emit JMP 0 0 0 s = Inr (j, s0)" "e \<noteq> 0"
      "(if getCurrentTokenType s0 = constsym then const_declaration s0 else Inr (0, s0))
         = Inr (e, s')"
  | (var_err) j s0 s1 where "emit JMP 0 0 0 s = Inr (j, s0)"
      "(if getCurrentTokenType s0 = constsym then const_declaration s0 else Inr (0, s0))
         = Inr (0, s1)" "e \<noteq> 0"
      "(if getCurrentTokenType s1 = varsym then var_declaration s1 else Inr (0, s1))
         = Inr (e, s')"
  | (proc_err) j s0 s1 s2 where "emit JMP 0 0 0 s = Inr (j, s0)"
      "(if getCurrentTokenType s0 = constsym then const_declaration s0 else Inr (0, s0))
         = Inr (0, s1)"
      "(if getCurrentTokenType s1 = varsym then var_declaration s1 else Inr (0, s1))
         = Inr (0, s2)" "e \<noteq> 0"
      "(if getCurrentTokenType s2 = procsym then proc_declaration n s2 else Inr (0, s2))
         = Inr (e, s')"
  | (stmt_err) j s0 s1 s2 s3 a s4 where "emit JMP 0 0 0 s = Inr (j, s0)"
      "(if getCurrentTokenType s0 = constsym then const_declaration s0 else Inr (0, s0))
         = Inr (0, s1)"
      "(if getCurrentTokenType s1 = varsym then var_declaration s1 else Inr (0, s1))
         = Inr (0, s2)"
      "(if getCurrentTokenType s2 = procsym then proc_declaration n s2 else Inr (0, s2))
         = Inr (0, s3)"
      "emit INC 0 0 4 (backpatch j (int (nextCodeIndex s3)) s3) = Inr (a, s4)"
      "e \<noteq> 0" "statement n s4 = Inr (e, s')"
  | (ok) j s0 s1 s2 s3 a s4 s5 a6 where "emit JMP 0 0 0 s = Inr (j, s0)"
      "(if getCurrentTokenType s0 = constsym then const_declaration s0 else Inr (0, s0))
         = Inr (0, s1)"
      "(if getCurrentTokenType s1 = varsym then var_declaration s1 else Inr (0, s1))
         = Inr (0, s2)"
      "(if getCurrentTokenType s2 = procsym then proc_declaration n s2 else Inr (0, s2))
         = Inr (0, s3)"
      "emit INC 0 0 4 (backpatch j (int (nextCodeIndex s3)) s3) = Inr (a, s4)"
      "statement n s4 = Inr (0, s5)" "emit RTN 0 0 0 s5 = Inr (a6, s')" "e = 0"
  using assms unfolding block.simps
  by (elim on_okE bind_rE) auto

lemma sound_all_block:
  assumes p: "sound (proc_declaration n)" and st: "sound (statement n)"
  shows "sound_all (block (Suc n))"
proof (unfold sound_all_def, intro allI impI)
  fix s e s'
  assume "block (Suc n) s = Inr (e, s')"
  then show "follows s s' \<and> (e = 0 \<longrightarrow> patched s s')"
  proof (cases rule: block_cases)
    case (const_err j s0)
    have "follows s s0" using const_err(1) by (rule emit_follows)
    moreover have "follows s0 s'"
      using sound_optional [OF sound_const_declaration const_err(3)] by (rule inv_follows)
    ultimately show ?thesis using const_err(2) by (blast intro: follows_trans)
  next
    case (var_err j s0 s1)
    have "follows s s0" using var_err(1) by (rule emit_follows)
    moreover have "follows s0 s1"
      using sound_optional [OF sound_const_declaration var_err(2)] by (rule inv_follows)
    moreover have "follows s1 s'"
      using sound_optional [OF sound_var_declaration var_err(4)] by (rule inv_follows)
    ultimately show ?thesis using var_err(3) by (blast intro: follows_trans)
  next
    case (proc_err j s0 s1 s2)
    have "follows s s0" using proc_err(1) by (rule emit_follows)
    moreover have "follows s0 s1"
      using sound_optional [OF sound_const_declaration proc_err(2)] by (rule inv_follows)
    moreover have "follows s1 s2"
      using sound_optional [OF sound_var_declaration proc_err(3)] by (rule inv_follows)
    moreover have "follows s2 s'"
      using sound_optional [OF p proc_err(5)] by (rule inv_follows)
    ultimately show ?thesis using proc_err(4) by (blast intro: follows_trans)
  next
    case (stmt_err j s0 s1 s2 s3 a s4)
    have "run_inv 0 s0 s3"
      using sound_optional [OF sound_const_declaration stmt_err(2)]
        sound_optional [OF sound_var_declaration stmt_err(3)]
        sound_optional [OF p stmt_err(4)]
      by (blast intro: inv_seq)
    then have "follows s0 s3" by (rule inv_follows)
    with stmt_err(1) have "follows s (backpatch j (int (nextCodeIndex s3)) s3)"
      by (rule follows_bracket)
    moreover have "follows (backpatch j (int (nextCodeIndex s3)) s3) s4"
      using stmt_err(5) by (rule emit_follows)
    moreover have "follows s4 s'" using soundD [OF st stmt_err(7)] by (rule inv_follows)
    ultimately show ?thesis using stmt_err(6) by (blast intro: follows_trans)
  next
    case (ok j s0 s1 s2 s3 a s4 s5 a6)
    have "run_inv 0 s0 s3"
      using sound_optional [OF sound_const_declaration ok(2)]
        sound_optional [OF sound_var_declaration ok(3)]
        sound_optional [OF p ok(4)]
      by (blast intro: inv_seq)
    moreover have "0 < nextCodeIndex s0" using emit_follows(3) [OF ok(1)] by simp
    ultimately have p03: "patched s0 s3" by (rule inv_patched)
    with ok(1) have p1: "patched s (backpatch j (int (nextCodeIndex s3)) s3)" by (rule bracket)
    have "nextCodeIndex s0 \<le> nextCodeIndex s3"
      using patched_follows [OF p03] by (simp add: follows_def)
    then have pos: "0 < nextCodeIndex s3" using \<open>0 < nextCodeIndex s0\<close> by simp
    have p2: "patched (backpatch j (int (nextCodeIndex s3)) s3) s4"
      using ok(5) by (rule patched_emit) simp
    have "0 < nextCodeIndex s4" using emit_follows(3) [OF ok(5)] by simp
    then have p3: "patched s4 s5" using soundD [OF st ok(6)] by (intro inv_patched)
    have p4: "patched s5 s'" using ok(7) by (rule patched_emit) simp
    have "patched s s'" using p1 p2 p3 p4 by (blast intro: patched_trans)
    then show ?thesis by (simp add: patched_def)
  qed
qed

lemma sound_ends: "sound f \<Longrightarrow> ends_ok s (f s)"
  by (simp add: sound_def)

lemma sound_fuel_0:
  "sound_all (block 0)" "sound (proc_declaration 0)" "sound (statement 0)"
  "sound (statement_loop 0)" "sound (condition 0)" "sound (expression 0)"
  "sound (expression_loop 0 opr)" "sound (term 0)" "sound (term_loop 0 opr)" "sound (factor 0)"
  by (simp_all add: sound_all_def sound_def)

lemma sound_proc_declaration:
  assumes "sound (block n)" "sound (proc_declaration n)"
  shows "sound (proc_declaration (Suc n))"
  apply (rule soundI)
  apply (simp only: proc_declaration.simps case_prod_beta Let_def)
  apply ((intro vcg inv_malloc assms [THEN ends_ok_call] | assumption)+)
  done

lemma sound_statement:
  assumes "sound (expression n)" "sound (condition n)" "sound (statement n)"
    "sound (statement_loop n)"
  shows "sound (statement (Suc n))"
  apply (rule soundI)
  apply (simp only: statement.simps)
  apply (intro ends_ok_if ends_ok_Inr inv_refl
      sound_ends [OF sound_statement_ident [OF assms(1)]]
      sound_ends [OF sound_statement_call]
      sound_ends [OF sound_statement_begin [OF assms(3,4)]]
      sound_ends [OF sound_statement_if [OF assms(2,3)]]
      sound_ends [OF sound_statement_while [OF assms(2,3)]]
      sound_ends [OF sound_statement_write]
      sound_ends [OF sound_statement_read])
  done

lemma sound_statement_loop:
  assumes "sound (statement n)" "sound (statement_loop n)"
  shows "sound (statement_loop (Suc n))"
  apply (rule soundI)
  apply (simp only: statement_loop.simps)
  apply ((intro vcg assms [THEN ends_ok_call] | assumption)+)
  done

lemma sound_condition:
  assumes "sound (expression n)"
  shows "sound (condition (Suc n))"
  apply (rule soundI)
  apply (simp only: condition.simps)
  apply (rule sound_ends [OF sound_condition_body [OF assms]])
  done

lemma sound_expression:
  assumes "sound (term n)" "\<And>opr. sound (expression_loop n opr)"
  shows "sound (expression (Suc n))"
  apply (rule soundI)
  apply (simp only: expression.simps)
  apply (rule sound_ends [OF sound_expression_body [OF assms]])
  done

lemma sound_expression_loop:
  assumes "sound (term n)" "sound (expression_loop n opr)"
  shows "sound (expression_loop (Suc n) opr)"
  apply (rule soundI)
  apply (simp only: expression_loop.simps bind_r_if)
  apply ((intro vcg not_placeholder assms [THEN ends_ok_call] | assumption)+)
  done

lemma sound_term:
  assumes "sound (factor n)" "\<And>opr. sound (term_loop n opr)"
  shows "sound (term (Suc n))"
  apply (rule soundI)
  apply (simp only: "term.simps")
  apply ((intro vcg assms [THEN ends_ok_call] | assumption)+)
  done

lemma sound_term_loop:
  assumes "sound (factor n)" "sound (term_loop n opr)"
  shows "sound (term_loop (Suc n) opr)"
  apply (rule soundI)
  apply (simp only: term_loop.simps bind_r_if)
  apply ((intro vcg not_placeholder assms [THEN ends_ok_call] | assumption)+)
  done

lemma sound_factor:
  assumes "sound (expression n)"
  shows "sound (factor (Suc n))"
  apply (rule soundI)
  apply (simp only: factor.simps)
  apply (rule sound_ends [OF sound_factor_body [OF assms]])
  done

lemma sound_productions:
  "sound_all (block n) \<and> sound (proc_declaration n) \<and> sound (statement n)
   \<and> sound (statement_loop n) \<and> sound (condition n) \<and> sound (expression n)
   \<and> (\<forall>opr. sound (expression_loop n opr)) \<and> sound (term n)
   \<and> (\<forall>opr. sound (term_loop n opr)) \<and> sound (factor n)"
proof (induction n)
  case 0
  show ?case by (simp add: sound_all_def sound_def ends_ok_def)
next
  case (Suc n)
  then have b: "sound_all (block n)" and p: "sound (proc_declaration n)"
    and s: "sound (statement n)" and sl: "sound (statement_loop n)"
    and c: "sound (condition n)" and e: "sound (expression n)"
    and el: "\<And>opr. sound (expression_loop n opr)" and t: "sound (term n)"
    and tl: "\<And>opr. sound (term_loop n opr)" and f: "sound (factor n)"
    by simp_all
  show ?case
    by (intro conjI allI sound_all_block [OF p s]
        sound_proc_declaration [OF sound_all_sound [OF b] p] sound_statement [OF e c s sl]
        sound_statement_loop [OF s sl] sound_condition [OF e] sound_expression [OF t el]
        sound_expression_loop [OF t el] sound_term [OF f tl] sound_term_loop [OF f tl]
        sound_factor [OF e])
qed

lemma program_patched:
  assumes "program n s = Inr (0, s')"
  shows "patched s s'"
proof -
  have b: "sound_all (block n)" using sound_productions [of n] by simp
  from assms obtain s1 a where 1: "block n s = Inr (0, s1)"
    and 2: "emit SIO_HALT 0 0 3 (nextToken s1) = Inr (a, s')"
    unfolding program_def by (auto elim!: on_okE bind_rE split: if_splits)
  have "patched s s1" using b 1 by (simp add: sound_all_def)
  moreover have "patched s1 (nextToken s1)" by simp
  moreover have "patched (nextToken s1) s'" using 2 by (rule patched_emit) simp
  ultimately show ?thesis by (blast intro: patched_trans)
qed

text \<open>
  C4, as amended. For every token sequence accepted with error code 0, each
  placeholder jump emitted with the target 0 is backpatched exactly once before
  compilation completes, except that a placeholder conditional jump may instead be
  backpatched exactly twice: no placeholder is left unpatched, no unconditional jump is
  backpatched more than once, and no conditional jump more than twice.
\<close>

theorem placeholders_backpatched_once_or_jpc_twice:
  assumes "codeGenerator_writes toks g = Inr (0, ws)"
    and "Emitted a i \<in> set ws" and "is_placeholder i"
  shows "backpatch_count ws a = 1 \<or> (op i = JPC \<and> backpatch_count ws a = 2)"
proof -
  let ?s = "codeGenerator_entry toks g"
  from assms(1) obtain s' where p: "program (fuel_for toks) ?s = Inr (0, s')"
    and ws: "ws = vm_log s'"
    by (auto simp: codeGenerator_writes_def codeGenerator_def split: sum.splits)
  have "patched ?s s'" using p by (rule program_patched)
  moreover have "vm_log ?s = []" by (simp add: codeGenerator_entry_def)
  ultimately have "well_patched ws"
    unfolding ws by (simp add: patched_def log_since_def)
  then show ?thesis using assms(2,3) by (simp add: well_patched_iff)
qed

lemma follows_below:
  "follows s t \<Longrightarrow> i < nextCodeIndex s \<Longrightarrow> vmCode t ! i = vmCode s ! i"
  by (simp add: follows_def)

text \<open>
  C7. A block that compiles without error has emitted: the jump at the address where
  the block starts, backpatched to the address reached after the constant, variable
  and procedure declaration groups, each compiled at most once and in that order;
  at that address the instruction reserving 4 cells; then the code of one statement;
  then the return instruction, which is the last one.
\<close>

theorem block_code_layout:
  assumes "block (Suc n) s = Inr (0, s')"
  shows "\<exists>s0 s1 s2 s3 s4 s5.
      emit JMP 0 0 0 s = Inr (nextCodeIndex s, s0)
    \<and> (if getCurrentTokenType s0 = constsym then const_declaration s0 else Inr (0, s0))
         = Inr (0, s1)
    \<and> (if getCurrentTokenType s1 = varsym then var_declaration s1 else Inr (0, s1))
         = Inr (0, s2)
    \<and> (if getCurrentTokenType s2 = procsym then proc_declaration n s2 else Inr (0, s2))
         = Inr (0, s3)
    \<and> emit INC 0 0 4 (backpatch (nextCodeIndex s) (int (nextCodeIndex s3)) s3)
         = Inr (nextCodeIndex s3, s4)
    \<and> statement n s4 = Inr (0, s5)
    \<and> emit RTN 0 0 0 s5 = Inr (nextCodeIndex s5, s')
    \<and> nextCodeIndex s < nextCodeIndex s3
    \<and> nextCodeIndex s4 = Suc (nextCodeIndex s3)
    \<and> nextCodeIndex s4 \<le> nextCodeIndex s5
    \<and> nextCodeIndex s' = Suc (nextCodeIndex s5)
    \<and> vmCode s' ! nextCodeIndex s = ins JMP 0 0 (int (nextCodeIndex s3))
    \<and> vmCode s' ! nextCodeIndex s3 = ins INC 0 0 4
    \<and> take (nextCodeIndex s5) (vmCode s') = take (nextCodeIndex s5) (vmCode s5)
    \<and> vmCode s' ! nextCodeIndex s5 = ins RTN 0 0 0"
  using assms
proof (cases rule: block_cases)
  case (ok j s0 s1 s2 s3 a s4 s5 a6)
  have p: "sound (proc_declaration n)" and st: "sound (statement n)"
    using sound_productions [of n] by simp_all
  let ?b = "backpatch j (int (nextCodeIndex s3)) s3"
  have j: "j = nextCodeIndex s" using ok(1) by (rule emit_address)
  have a: "a = nextCodeIndex s3" using emit_address [OF ok(5)] by simp
  have a6: "a6 = nextCodeIndex s5" using ok(7) by (rule emit_address)
  note e0 = emit_Inr [OF ok(1)] and e4 = emit_Inr [OF ok(5)] and e6 = emit_Inr [OF ok(7)]
  have n0: "nextCodeIndex s0 = Suc j" using emit_follows(3) [OF ok(1)] j by simp
  have "run_inv 0 s0 s3"
    using sound_optional [OF sound_const_declaration ok(2)]
      sound_optional [OF sound_var_declaration ok(3)]
      sound_optional [OF p ok(4)]
    by (blast intro: inv_seq)
  then have f03: "follows s0 s3" by (rule inv_follows)
  have f45: "follows s4 s5" using soundD [OF st ok(6)] by (rule inv_follows)
  have n3: "j < nextCodeIndex s3" using f03 n0 by (simp add: follows_def)
  have len: "length (vmCode s3) = length (vmCode s)" "j < length (vmCode s)"
    using f03 e0 j by (simp_all add: follows_def)
  have n4: "nextCodeIndex s4 = Suc (nextCodeIndex s3)" using emit_follows(3) [OF ok(5)] by simp
  have n45: "nextCodeIndex s4 \<le> nextCodeIndex s5" using f45 by (simp add: follows_def)
  have n6: "nextCodeIndex s' = Suc (nextCodeIndex s5)" using emit_follows(3) [OF ok(7)] .
  have "vmCode s0 ! j = \<lparr>op = JMP, r = 0, l = 0, m = 0\<rparr>"
    using e0 j by simp
  then have "vmCode s3 ! j = \<lparr>op = JMP, r = 0, l = 0, m = 0\<rparr>"
    using follows_below [OF f03, of j] n0 by simp
  then have "vmCode ?b ! j = ins JMP 0 0 (int (nextCodeIndex s3))"
    using len by (simp add: backpatch_def ins_def)
  then have 4: "vmCode s4 ! j = ins JMP 0 0 (int (nextCodeIndex s3))"
    "vmCode s4 ! nextCodeIndex s3 = ins INC 0 0 4"
    using e4 n3 by (simp_all add: ins_def)
  have 5: "vmCode s5 ! j = ins JMP 0 0 (int (nextCodeIndex s3))"
    "vmCode s5 ! nextCodeIndex s3 = ins INC 0 0 4"
    using follows_below [OF f45] 4 n4 n3 by simp_all
  have 6: "vmCode s' = (vmCode s5)[nextCodeIndex s5 := ins RTN 0 0 0]"
    using e6 by (simp add: ins_def)
  have "vmCode s' ! j = ins JMP 0 0 (int (nextCodeIndex s3))"
    "vmCode s' ! nextCodeIndex s3 = ins INC 0 0 4"
    "take (nextCodeIndex s5) (vmCode s') = take (nextCodeIndex s5) (vmCode s5)"
    "vmCode s' ! nextCodeIndex s5 = ins RTN 0 0 0"
    using 5 n3 n4 n45 e6(2) unfolding 6 by simp_all
  then show ?thesis
    using ok(1-7) n3 n4 n45 n6 unfolding j [symmetric] a a6 by blast
qed simp_all

lemma if_else_writes_eval:
  assumes "12 \<le> length (vmCode g)"
  shows "codeGenerator_writes if_else_program g = Inr (0, if_else_writes)"
proof -
  from assms have "vmCode g \<noteq> []" by auto
  with assms show ?thesis
    by (simp add: if_else_program_def var_x_def if_then_def if_else_writes_def run_defs
        del: Suc_numeral cong: on_ok_weak_cong bind_r_weak_cong Let_weak_cong)
qed

lemma if_else_writes_count: "backpatch_count if_else_writes 6 = 2"
  by (simp add: if_else_writes_def backpatch_count_def)

theorem placeholders_backpatched_once_or_jpc_twice_witness:
  "codeGenerator_writes if_else_program (fresh_state 0) = Inr (0, if_else_writes)
   \<and> Emitted 8 (ins JMP 0 0 0) \<in> set if_else_writes
   \<and> is_placeholder (ins JMP 0 0 0)
   \<and> (backpatch_count if_else_writes 8 = 1
      \<or> (op (ins JMP 0 0 0) = JPC \<and> backpatch_count if_else_writes 8 = 2))"
proof -
  have e: "codeGenerator_writes if_else_program (fresh_state 0) = Inr (0, if_else_writes)"
    by (rule if_else_writes_eval) (simp add: fresh_state_capacity)
  have m: "Emitted 8 (ins JMP 0 0 0) \<in> set if_else_writes"
    by (simp add: if_else_writes_def)
  have p: "is_placeholder (ins JMP 0 0 0)"
    by (simp add: is_placeholder_def ins_def)
  show ?thesis
    using placeholders_backpatched_once_or_jpc_twice [OF e m p] e m p by blast
qed

text \<open>
  C4. Every placeholder jump is claimed to be backpatched exactly once in an accepted
  program. The conditional jump of an if statement is backpatched after the
  then-branch and, when an else branch follows, once more after that branch: in
  \<^verbatim>\<open>var x; if x = x then x := x else x := x.\<close>, accepted with error code 0, the
  placeholder at address 6 is backpatched twice.
\<close>

theorem if_else_placeholder_backpatched_twice:
  "codeGenerator_writes if_else_program (fresh_state 0) = Inr (0, if_else_writes)
   \<and> Emitted 6 (ins JPC 0 0 0) \<in> set if_else_writes
   \<and> is_placeholder (ins JPC 0 0 0)
   \<and> backpatch_count if_else_writes 6 = 2"
proof -
  have e: "codeGenerator_writes if_else_program (fresh_state 0) = Inr (0, if_else_writes)"
    by (rule if_else_writes_eval) (simp add: fresh_state_capacity)
  have m: "Emitted 6 (ins JPC 0 0 0) \<in> set if_else_writes"
    by (simp add: if_else_writes_def)
  have p: "is_placeholder (ins JPC 0 0 0)"
    by (simp add: is_placeholder_def ins_def)
  show ?thesis
    using e m p if_else_writes_count by simp
qed

theorem block_code_layout_witness:
  "\<exists>s'. block (Suc 20) entry_if = Inr (0, s')
     \<and> (\<exists>s0 s1 s2 s3 s4 s5.
      emit JMP 0 0 0 entry_if = Inr (nextCodeIndex entry_if, s0)
    \<and> (if getCurrentTokenType s0 = constsym then const_declaration s0 else Inr (0, s0))
         = Inr (0, s1)
    \<and> (if getCurrentTokenType s1 = varsym then var_declaration s1 else Inr (0, s1))
         = Inr (0, s2)
    \<and> (if getCurrentTokenType s2 = procsym then proc_declaration 20 s2 else Inr (0, s2))
         = Inr (0, s3)
    \<and> emit INC 0 0 4 (backpatch (nextCodeIndex entry_if) (int (nextCodeIndex s3)) s3)
         = Inr (nextCodeIndex s3, s4)
    \<and> statement 20 s4 = Inr (0, s5)
    \<and> emit RTN 0 0 0 s5 = Inr (nextCodeIndex s5, s')
    \<and> nextCodeIndex entry_if < nextCodeIndex s3
    \<and> nextCodeIndex s4 = Suc (nextCodeIndex s3)
    \<and> nextCodeIndex s4 \<le> nextCodeIndex s5
    \<and> nextCodeIndex s' = Suc (nextCodeIndex s5)
    \<and> vmCode s' ! nextCodeIndex entry_if = ins JMP 0 0 (int (nextCodeIndex s3))
    \<and> vmCode s' ! nextCodeIndex s3 = ins INC 0 0 4
    \<and> take (nextCodeIndex s5) (vmCode s') = take (nextCodeIndex s5) (vmCode s5)
    \<and> vmCode s' ! nextCodeIndex s5 = ins RTN 0 0 0)"
proof -
  have "\<exists>s'. block (Suc 20) entry_if = Inr (0, s')"
    by (simp add: entry_if_def if_program_def var_x_def if_then_def fresh_state_def
        blank_symbol_def run_defs
        del: Suc_numeral cong: on_ok_weak_cong bind_r_weak_cong Let_weak_cong)
  then obtain s' where e: "block (Suc 20) entry_if = Inr (0, s')" ..
  show ?thesis
    by (rule exI [of _ s'], rule conjI, rule e, rule block_code_layout [OF e])
qed

section \<open>How often a statement backpatches its conditional jump\<close>

lemma count_before:
  assumes "follows s t" "nextCodeIndex t \<le> j"
  shows "backpatch_count (log_since s t) j = 0"
proof -
  have "\<forall>w\<in>set (log_since s t). addr_of w \<noteq> j"
    using assms by (fastforce simp: follows_def)
  then show ?thesis by (rule backpatch_count_zero)
qed

lemma count_bracket:
  assumes "emit OP R L M t = Inr (j, t1)" "follows t1 t2"
  shows "backpatch_count (log_since t (backpatch j v t2)) j = 1"
    and "Emitted j \<lparr>op = OP, r = R, l = L, m = M\<rparr> \<in> set (log_since t (backpatch j v t2))"
proof -
  note e = emit_follows [OF assms(1)]
  have j: "j = nextCodeIndex t" using assms(1) by (rule emit_Inr)
  have f: "follows t t2" using e(1) assms(2) by (rule follows_trans)
  have l: "log_since t t2 = Emitted j \<lparr>op = OP, r = R, l = L, m = M\<rparr> # log_since t1 t2"
    using log_since_trans [OF e(1) assms(2)] e(2) j by simp
  have lt: "j < nextCodeIndex t2" using assms(2) e(3) j by (simp add: follows_def)
  note b = follows_backpatch [OF f, of j v]
  have ll: "log_since t (backpatch j v t2)
     = Emitted j \<lparr>op = OP, r = R, l = L, m = M\<rparr> # log_since t1 t2 @ [Backpatched j v]"
    using b(2) j lt l by simp
  have "\<forall>w\<in>set (log_since t1 t2). addr_of w \<noteq> j"
    using assms(2) e(3) j by (fastforce simp: follows_def)
  then have z: "backpatch_count (log_since t1 t2) j = 0" by (rule backpatch_count_zero)
  show "backpatch_count (log_since t (backpatch j v t2)) j = 1"
    unfolding ll using z by (simp add: backpatch_count_def)
  show "Emitted j \<lparr>op = OP, r = R, l = L, m = M\<rparr> \<in> set (log_since t (backpatch j v t2))"
    unfolding ll by simp
qed


lemma count_since:
  assumes "follows s t" "follows t u" "nextCodeIndex t \<le> j"
  shows "backpatch_count (log_since s u) j = backpatch_count (log_since t u) j"
    and "w \<in> set (log_since t u) \<Longrightarrow> w \<in> set (log_since s u)"
  using count_before [OF assms(1,3)] by (simp_all add: log_since_trans [OF assms(1,2)])

text \<open>
  The conditional jump of a while statement that compiles is backpatched exactly once
  by the statement.
\<close>

lemma statement_while_backpatches_once:
  assumes c: "sound cond" and st: "sound stmt"
    and "statement_while cond stmt s = Inr (0, s')"
  shows "\<exists>s1. cond (nextToken s) = Inr (0, s1)
    \<and> Emitted (nextCodeIndex s1) (ins JPC 0 0 0) \<in> set (log_since s s')
    \<and> backpatch_count (log_since s s') (nextCodeIndex s1) = 1"
  using assms(3)
proof (cases rule: statement_while_cases)
  case (ok s1 a s2 s3 a4 s4)
  have f01: "follows s s1"
    using soundD [OF c ok(1)] by (blast intro: follows_trans follows_nextToken inv_follows)
  have a: "a = nextCodeIndex s1" using ok(2) by (rule emit_address)
  have f23: "follows s2 s3"
    using soundD [OF st ok(3)] by (blast intro: follows_trans follows_nextToken inv_follows)
  have f34: "follows s3 s4" using ok(4) by (rule emit_follows)
  note f24 = follows_trans [OF f23 f34]
  have f: "follows s1 s'"
    unfolding ok(6) a [symmetric] using ok(2) f24 by (rule follows_bracket)
  note b = count_bracket [OF ok(2) f24, of "int (nextCodeIndex s4)"]
  have "backpatch_count (log_since s s') (nextCodeIndex s1) = 1"
    using count_since(1) [OF f01 f order_refl] b(1) unfolding ok(6) a by simp
  moreover have "Emitted (nextCodeIndex s1) (ins JPC 0 0 0) \<in> set (log_since s s')"
    using count_since(2) [OF f01 f order_refl] b(2) unfolding ok(6) a ins_def by simp
  ultimately show ?thesis using ok(1) by blast
qed simp_all

text \<open>
  The conditional jump of an if statement that compiles is backpatched by the statement
  exactly once when no else branch follows, and exactly twice when one does.
\<close>

lemma statement_if_backpatches:
  assumes c: "sound cond" and st: "sound stmt"
    and "statement_if cond stmt s = Inr (0, s')"
  shows "\<exists>s1 s3 s4. cond (nextToken s) = Inr (0, s1)
    \<and> emit JPC 0 0 0 (nextToken s1) = Inr (nextCodeIndex s1, s3)
    \<and> stmt s3 = Inr (0, s4)
    \<and> Emitted (nextCodeIndex s1) (ins JPC 0 0 0) \<in> set (log_since s s')
    \<and> backpatch_count (log_since s s') (nextCodeIndex s1)
        = (if getCurrentTokenType s4 = elsesym then 2 else 1)"
  using assms(3)
proof (cases rule: statement_if_cases)
  case (no_else s1 a s3 s4)
  have f01: "follows s (nextToken s1)"
    using soundD [OF c no_else(1)] by (blast intro: follows_trans follows_nextToken inv_follows)
  have a: "a = nextCodeIndex s1" using emit_address [OF no_else(2)] by simp
  have f34: "follows s3 s4" using soundD [OF st no_else(3)] by (rule inv_follows)
  have f: "follows (nextToken s1) s'"
    unfolding no_else(6) a [symmetric] using no_else(2) f34 by (rule follows_bracket)
  note b = count_bracket [OF no_else(2) f34, of "int (nextCodeIndex s4)"]
  have n: "nextCodeIndex (nextToken s1) \<le> nextCodeIndex s1" by simp
  have "backpatch_count (log_since s s') (nextCodeIndex s1) = 1"
    using count_since(1) [OF f01 f n] b(1) unfolding no_else(6) a by simp
  moreover have "Emitted (nextCodeIndex s1) (ins JPC 0 0 0) \<in> set (log_since s s')"
    using count_since(2) [OF f01 f n] b(2) unfolding no_else(6) a ins_def by simp
  ultimately show ?thesis using no_else(1-4) unfolding a by auto
next
  case (else_ok s1 a s3 s4 a2 s6 s9)
  let ?j = "nextCodeIndex s1"
  let ?s5 = "backpatch ?j (int (nextCodeIndex s4)) s4"
  let ?s8 = "backpatch (nextCodeIndex s4) (int (nextCodeIndex s6)) (nextToken s6)"
  have f01: "follows s (nextToken s1)"
    using soundD [OF c else_ok(1)] by (blast intro: follows_trans follows_nextToken inv_follows)
  have a: "a = ?j" using emit_address [OF else_ok(2)] by simp
  have a2: "a2 = nextCodeIndex s4" using emit_address [OF else_ok(5)] by simp
  have n3: "nextCodeIndex s3 = Suc ?j" using emit_follows(3) [OF else_ok(2)] by simp
  have f34: "follows s3 s4" using soundD [OF st else_ok(3)] by (rule inv_follows)
  have f15: "follows (nextToken s1) ?s5"
    unfolding a [symmetric] using else_ok(2) f34 by (rule follows_bracket)
  note b = count_bracket [OF else_ok(2) f34, of "int (nextCodeIndex s4)"]
  have "follows ?s5 (backpatch a2 (int (nextCodeIndex s6)) (nextToken s6))"
    using else_ok(5) by (rule follows_bracket) simp
  then have f58: "follows ?s5 ?s8" unfolding a2 .
  have f89: "follows ?s8 s9" using soundD [OF st else_ok(6)] by (rule inv_follows)
  note f59 = follows_trans [OF f58 f89]
  note f19 = follows_trans [OF f15 f59]
  have lt: "?j < nextCodeIndex ?s5" using f34 n3 by (simp add: follows_def)
  have lt9: "?j < nextCodeIndex s9" using lt f59 by (simp add: follows_def)
  have c9: "backpatch_count (log_since (nextToken s1) s9) ?j = 1"
    using count_later [OF f15 f59 lt] b(1) unfolding a by simp
  have m9: "Emitted ?j (ins JPC 0 0 0) \<in> set (log_since (nextToken s1) s9)"
    using b(2) unfolding a ins_def log_since_trans [OF f15 f59] by simp
  note bp = follows_backpatch [OF f19, of ?j "int (nextCodeIndex s9)"]
  have f: "follows (nextToken s1) s'"
    unfolding else_ok(8) using lt9 by (intro bp(1)) simp_all
  have l: "log_since (nextToken s1) s' = log_since (nextToken s1) s9
      @ [Backpatched ?j (int (nextCodeIndex s9))]"
    unfolding else_ok(8) using lt9 by (intro bp(2)) simp_all
  have n: "nextCodeIndex (nextToken s1) \<le> ?j" by simp
  have "backpatch_count (log_since s s') ?j = 2"
    using count_since(1) [OF f01 f n] c9 unfolding l by (simp add: backpatch_count_def)
  moreover have "Emitted ?j (ins JPC 0 0 0) \<in> set (log_since s s')"
    using count_since(2) [OF f01 f n] m9 unfolding l by simp
  ultimately show ?thesis using else_ok(1-4) unfolding a by auto
qed simp_all


lemma while_backpatches_once:
  assumes "getCurrentTokenType s = whilesym" "statement (Suc n) s = Inr (0, s')"
  shows "\<exists>s1. condition n (nextToken s) = Inr (0, s1)
    \<and> Emitted (nextCodeIndex s1) (ins JPC 0 0 0) \<in> set (log_since s s')
    \<and> backpatch_count (log_since s s') (nextCodeIndex s1) = 1"
proof -
  have c: "sound (condition n)" and st: "sound (statement n)"
    using sound_productions [of n] by simp_all
  from assms have "statement_while (condition n) (statement n) s = Inr (0, s')" by simp
  with c st show ?thesis by (rule statement_while_backpatches_once)
qed

lemma if_backpatches_once_or_twice:
  assumes "getCurrentTokenType s = ifsym" "statement (Suc n) s = Inr (0, s')"
  shows "\<exists>s1 s3 s4. condition n (nextToken s) = Inr (0, s1)
    \<and> emit JPC 0 0 0 (nextToken s1) = Inr (nextCodeIndex s1, s3)
    \<and> statement n s3 = Inr (0, s4)
    \<and> Emitted (nextCodeIndex s1) (ins JPC 0 0 0) \<in> set (log_since s s')
    \<and> backpatch_count (log_since s s') (nextCodeIndex s1)
        = (if getCurrentTokenType s4 = elsesym then 2 else 1)"
proof -
  have c: "sound (condition n)" and st: "sound (statement n)"
    using sound_productions [of n] by simp_all
  from assms have "statement_if (condition n) (statement n) s = Inr (0, s')" by simp
  with c st show ?thesis by (rule statement_if_backpatches)
qed

section \<open>The depth bound is never used up\<close>

lemma follows_later: "follows s t \<Longrightarrow> later s t"
  by (simp add: follows_def later_def)

lemma sound_later: "sound f \<Longrightarrow> f s = Inr (e, s') \<Longrightarrow> later s s'"
  by (blast intro: follows_later inv_follows soundD)

lemma productions_later:
  "block n s = Inr (e, s') \<Longrightarrow> later s s'"
  "proc_declaration n s = Inr (e, s') \<Longrightarrow> later s s'"
  "statement n s = Inr (e, s') \<Longrightarrow> later s s'"
  "statement_loop n s = Inr (e, s') \<Longrightarrow> later s s'"
  "condition n s = Inr (e, s') \<Longrightarrow> later s s'"
  "expression n s = Inr (e, s') \<Longrightarrow> later s s'"
  "expression_loop n opr s = Inr (e, s') \<Longrightarrow> later s s'"
  "term n s = Inr (e, s') \<Longrightarrow> later s s'"
  "term_loop n opr s = Inr (e, s') \<Longrightarrow> later s s'"
  "factor n s = Inr (e, s') \<Longrightarrow> later s s'"
proof -
  note a = sound_productions [of n]
  have b: "sound (block n)" using a by (blast intro: sound_all_sound)
  show "block n s = Inr (e, s') \<Longrightarrow> later s s'" using b by (rule sound_later)
  show "proc_declaration n s = Inr (e, s') \<Longrightarrow> later s s'" using a by (blast intro: sound_later)
  show "statement n s = Inr (e, s') \<Longrightarrow> later s s'" using a by (blast intro: sound_later)
  show "statement_loop n s = Inr (e, s') \<Longrightarrow> later s s'" using a by (blast intro: sound_later)
  show "condition n s = Inr (e, s') \<Longrightarrow> later s s'" using a by (blast intro: sound_later)
  show "expression n s = Inr (e, s') \<Longrightarrow> later s s'" using a by (blast intro: sound_later)
  show "expression_loop n opr s = Inr (e, s') \<Longrightarrow> later s s'" using a by (blast intro: sound_later)
  show "term n s = Inr (e, s') \<Longrightarrow> later s s'" using a by (blast intro: sound_later)
  show "term_loop n opr s = Inr (e, s') \<Longrightarrow> later s s'" using a by (blast intro: sound_later)
  show "factor n s = Inr (e, s') \<Longrightarrow> later s s'" using a by (blast intro: sound_later)
qed

lemma declarations_later:
  "const_declaration s = Inr (e, s') \<Longrightarrow> later s s'"
  "var_declaration s = Inr (e, s') \<Longrightarrow> later s s'"
  by (rule sound_later [OF sound_const_declaration], assumption)
     (rule sound_later [OF sound_var_declaration], assumption)

lemma current_token_in_range:
  "getCurrentTokenType s \<noteq> nulsym \<Longrightarrow> currentTokenInd s < length (tokenList s)"
  by (auto simp: getCurrentTokenType_def getCurrentToken_def split: if_splits)

lemma emit_later: "emit OP R L M t = Inr (a, t') \<Longrightarrow> later t t'"
  by (auto dest!: emit_Inr(3) simp: later_def)

lemma emit_tokens:
  "emit OP R L M t = Inr (a, t') \<Longrightarrow>
     tokenList t' = tokenList t \<and> currentTokenInd t' = currentTokenInd t"
  by (auto dest!: emit_Inr(3))

lemma later_refl [simp]: "later s s"
  by (simp add: later_def)

lemma later_trans: "later s t \<Longrightarrow> later t u \<Longrightarrow> later s u"
  by (simp add: later_def)

lemma later_nextToken [simp]: "later s (nextToken s)"
  by (simp add: later_def)

lemma later_backpatch [simp]: "later s (backpatch j v s)"
  by (simp add: later_def)

lemma later_consumed: "later s t \<Longrightarrow> consumed t u \<Longrightarrow> consumed s u"
  by (auto simp: later_def consumed_def)

lemma consumed_later: "consumed s t \<Longrightarrow> later t u \<Longrightarrow> consumed s u"
  by (auto simp: later_def consumed_def)

lemma in_range [simp]:
  "getCurrentTokenType s = identsym \<Longrightarrow> currentTokenInd s < length (tokenList s)"
  "getCurrentTokenType s = numbersym \<Longrightarrow> currentTokenInd s < length (tokenList s)"
  "getCurrentTokenType s = lparentsym \<Longrightarrow> currentTokenInd s < length (tokenList s)"
  "getCurrentTokenType s = beginsym \<Longrightarrow> currentTokenInd s < length (tokenList s)"
  "getCurrentTokenType s = semicolonsym \<Longrightarrow> currentTokenInd s < length (tokenList s)"
  "getCurrentTokenType s = procsym \<Longrightarrow> currentTokenInd s < length (tokenList s)"
  "getCurrentTokenType s = ifsym \<Longrightarrow> currentTokenInd s < length (tokenList s)"
  "getCurrentTokenType s = whilesym \<Longrightarrow> currentTokenInd s < length (tokenList s)"
  by (rule current_token_in_range, simp)+

lemma consumed_after:
  "currentTokenInd s < length (tokenList s) \<Longrightarrow> later s t \<Longrightarrow> consumed s (nextToken t)"
  by (auto simp: later_def consumed_def)

lemma later_after_next: "later (nextToken s) t \<Longrightarrow> later s t"
  by (simp add: later_def)

lemma later_next: "later s t \<Longrightarrow> later s (nextToken t)"
  by (simp add: later_def)

lemma factor_body_consumed:
  assumes "factor_body expr s = Inr (0, s')"
    and "\<And>t e t'. expr t = Inr (e, t') \<Longrightarrow> later t t'"
  shows "consumed s s'"
  using assms(1) unfolding factor_body_def
  by (auto elim!: on_okE bind_rE split: if_splits option.splits
      dest!: emit_later assms(2)
      intro!: consumed_after intro: later_after_next)

text \<open>
  A factor, a term, an expression or a condition that returns error code 0 has moved
  the cursor past a token: the loops of \<^verbatim>\<open>expression\<close> and \<^verbatim>\<open>term\<close>, whose operator
  is never read again, end when the tokens do.
\<close>

lemma progress:
  "(\<forall>s s'. factor n s = Inr (0, s') \<longrightarrow> consumed s s')
   \<and> (\<forall>s s'. term n s = Inr (0, s') \<longrightarrow> consumed s s')
   \<and> (\<forall>s s'. expression n s = Inr (0, s') \<longrightarrow> consumed s s')
   \<and> (\<forall>s s'. condition n s = Inr (0, s') \<longrightarrow> consumed s s')"
proof (induction n)
  case 0
  show ?case by simp
next
  case (Suc n)
  then have f: "\<And>s s'. factor n s = Inr (0, s') \<Longrightarrow> consumed s s'"
    and t: "\<And>s s'. term n s = Inr (0, s') \<Longrightarrow> consumed s s'"
    and e: "\<And>s s'. expression n s = Inr (0, s') \<Longrightarrow> consumed s s'"
    by blast+
  have 1: "consumed s s'" if "factor (Suc n) s = Inr (0, s')" for s s'
    using that productions_later(6) by (auto intro: factor_body_consumed)
  have 2: "consumed s s'" if "term (Suc n) s = Inr (0, s')" for s s'
  proof -
    from that obtain s1 opr where "factor n s = Inr (0, s1)" "term_loop n opr s1 = Inr (0, s')"
      by (auto elim!: on_okE simp: Let_def)
    then show ?thesis by (blast intro: f consumed_later productions_later)
  qed
  have 3: "consumed s s'" if "expression (Suc n) s = Inr (0, s')" for s s'
  proof -
    from that obtain s3 s4 opr where
      p: "(if getCurrentTokenType s = plussym \<or> getCurrentTokenType s = minussym
           then on_ok (term n (nextToken s)) (\<lambda>s1.
                  if getCurrentTokenType s = minussym
                  then bind_r (emit NEG 0 0 0 s1) (\<lambda>_ s2. Inr (0, s2))
                  else Inr (0, s1))
           else Inr (0, s)) = Inr (0, s3)"
      and q: "term n s3 = Inr (0, s4)" "expression_loop n opr s4 = Inr (0, s')"
      unfolding expression.simps expression_body_def Let_def
      by (elim on_okE) auto
    from p have "later s s3"
      by (auto elim!: on_okE bind_rE split: if_splits
          dest!: productions_later(8) emit_later
          intro: later_after_next later_trans)
    with q show ?thesis by (blast intro: t consumed_later later_consumed productions_later)
  qed
  have 4: "consumed s s'" if "condition (Suc n) s = Inr (0, s')" for s s'
  proof -
    from that obtain s3 where
      p: "(if getCurrentTokenType s = oddsym
           then on_ok (expression n (nextToken s)) (\<lambda>s1.
                  bind_r (emit ODD 0 0 0 s1) (\<lambda>_ s2. Inr (0, s2)))
           else on_ok (expression n s) condition_relop) = Inr (0, s3)"
      and q: "expression n s3 = Inr (0, s')"
      unfolding condition.simps condition_body_def
      by (elim on_okE) auto
    from p have "later s s3"
      unfolding condition_relop_def Let_def
      by (auto elim!: on_okE bind_rE split: if_splits option.splits
          dest!: productions_later(6) emit_later
          intro!: later_next intro: later_after_next later_trans)
    with q show ?thesis by (blast intro: e later_consumed)
  qed
  show ?case using 1 2 3 4 by blast
qed

lemma fits_later:
  "fits k (Suc n) s \<Longrightarrow> later s t \<Longrightarrow> k' < k \<Longrightarrow> fits k' n t"
  by (auto simp: fits_def later_def rem_tokens_def)

lemma fits_consumed:
  "fits k (Suc n) s \<Longrightarrow> consumed s t \<Longrightarrow> k' \<le> k + 8 \<Longrightarrow> fits k' n t"
  by (auto simp: fits_def consumed_def rem_tokens_def)

lemma safe_simps [simp]:
  "safe (Inr x)"
  "safe (Inl e) \<longleftrightarrow> e \<noteq> Out_of_fuel"
  "safe (emit OP R L M s)"
  by (auto simp: safe_def emit_def)

lemma safe_on_ok:
  "safe x \<Longrightarrow> (\<And>s1. x = Inr (0, s1) \<Longrightarrow> safe (k s1)) \<Longrightarrow> safe (on_ok x k)"
  by (auto simp: safe_def on_ok_def split: sum.splits)

lemma safe_bind:
  "safe x \<Longrightarrow> (\<And>a s1. x = Inr (a, s1) \<Longrightarrow> safe (k a s1)) \<Longrightarrow> safe (bind_r x k)"
  by (auto simp: safe_def bind_r_def split: sum.splits)

lemmas safe_steps = safe_on_ok safe_bind

lemma safe_statement_ident:
  assumes "\<And>t. later s t \<Longrightarrow> safe (expr t)"
  shows "safe (statement_ident expr s)"
  unfolding statement_ident_def Let_def
  by (auto intro!: safe_steps assms split: option.splits simp: later_def)

lemma safe_statement_call [simp]: "safe (statement_call s)"
  unfolding statement_call_def Let_def
  by (auto intro!: safe_steps split: option.splits)

lemma safe_statement_write [simp]: "safe (statement_write s)"
  unfolding statement_write_def Let_def
  by (auto intro!: safe_steps split: option.splits)

lemma safe_statement_read [simp]: "safe (statement_read s)"
  unfolding statement_read_def Let_def
  by (auto intro!: safe_steps split: option.splits)

lemma safe_statement_begin:
  assumes "getCurrentTokenType s = beginsym"
    and "\<And>t. consumed s t \<Longrightarrow> safe (stmt t)"
    and "\<And>t. consumed s t \<Longrightarrow> safe (loop t)"
    and "\<And>t e t'. stmt t = Inr (e, t') \<Longrightarrow> later t t'"
  shows "safe (statement_begin stmt loop s)"
  using assms(1) unfolding statement_begin_def Let_def
  by (auto intro!: safe_steps assms(2,3) dest!: assms(4) simp: later_def consumed_def)

lemma safe_statement_if:
  assumes "getCurrentTokenType s = ifsym"
    and "\<And>t. later s t \<Longrightarrow> safe (cond t)"
    and "\<And>t. consumed s t \<Longrightarrow> safe (stmt t)"
    and "\<And>t e t'. cond t = Inr (e, t') \<Longrightarrow> later t t'"
    and "\<And>t e t'. stmt t = Inr (e, t') \<Longrightarrow> later t t'"
  shows "safe (statement_if cond stmt s)"
  using assms(1) unfolding statement_if_def Let_def
  by (auto intro!: safe_steps assms(2,3) dest!: assms(4,5) emit_tokens
      simp: later_def consumed_def)

lemma safe_statement_while:
  assumes "getCurrentTokenType s = whilesym"
    and "\<And>t. later s t \<Longrightarrow> safe (cond t)"
    and "\<And>t. consumed s t \<Longrightarrow> safe (stmt t)"
    and "\<And>t e t'. cond t = Inr (e, t') \<Longrightarrow> later t t'"
  shows "safe (statement_while cond stmt s)"
  using assms(1) unfolding statement_while_def Let_def
  by (auto intro!: safe_steps assms(2,3) dest!: assms(4) emit_tokens
      simp: later_def consumed_def)

lemma safe_condition_relop [simp]: "safe (condition_relop s)"
  unfolding condition_relop_def Let_def
  by (auto intro!: safe_steps)

lemma condition_relop_later: "condition_relop s = Inr (e, t) \<Longrightarrow> later s t"
  unfolding condition_relop_def Let_def
  by (auto elim!: bind_rE dest!: emit_tokens split: if_splits simp: later_def)

lemma safe_condition_body:
  assumes "\<And>t. later s t \<Longrightarrow> safe (expr t)"
    and "\<And>t e t'. expr t = Inr (e, t') \<Longrightarrow> later t t'"
  shows "safe (condition_body expr s)"
  unfolding condition_body_def
  by (auto intro!: safe_steps assms(1) elim!: on_okE bind_rE
      dest!: assms(2) emit_tokens condition_relop_later simp: later_def)

lemma safe_expression_body:
  assumes "\<And>t. later s t \<Longrightarrow> safe (trm t)"
    and "\<And>t opr. consumed s t \<Longrightarrow> safe (loop opr t)"
    and "\<And>t t'. trm t = Inr (0, t') \<Longrightarrow> consumed t t'"
  shows "safe (expression_body trm loop s)"
  unfolding expression_body_def Let_def
  by (auto intro!: safe_steps assms(1,2) elim!: on_okE bind_rE
      dest!: assms(3) emit_tokens simp: later_def consumed_def)

lemma safe_factor_body:
  assumes "\<And>t. consumed s t \<Longrightarrow> safe (expr t)"
  shows "safe (factor_body expr s)"
  unfolding factor_body_def
  by (auto intro!: safe_steps assms split: option.splits simp: consumed_def)

lemma safe_if: "(c \<Longrightarrow> safe a) \<Longrightarrow> (\<not> c \<Longrightarrow> safe b) \<Longrightarrow> safe (if c then a else b)"
  by simp

lemma safe_const_declaration [simp]: "safe (const_declaration s)"
proof (induction s rule: const_declaration.induct)
  case (1 s)
  note IH = "1.IH" [OF prod.collapse refl _ refl _ refl _ refl refl]
  show ?case
    apply (subst const_declaration.simps)
    apply (simp only: case_prod_beta Let_def)
    apply (intro safe_if safe_simps)
    apply (rule IH; assumption)
    done
qed

lemma safe_var_declaration [simp]: "safe (var_declaration s)"
proof (induction s rule: var_declaration.induct)
  case (1 s)
  note IH = "1.IH" [OF prod.collapse refl _ refl _ prod.collapse refl]
  show ?case
    apply (subst var_declaration.simps)
    apply (simp only: bind_r_def [symmetric])
    apply (simp only: case_prod_beta Let_def)
    apply (intro safe_if safe_bind safe_simps)
    subgoal premises p for a t'
      using IH [OF p(1), of "(a, t')"] p(2-) by simp
    done
qed

lemma progress_factor: "factor n s = Inr (0, s') \<Longrightarrow> consumed s s'"
  using progress [of n] by blast

lemma progress_term: "term n s = Inr (0, s') \<Longrightarrow> consumed s s'"
  using progress [of n] by blast

lemma enough_fuel:
  "(\<forall>s. fits 7 n s \<longrightarrow> safe (block n s))
   \<and> (\<forall>s. fits 6 n s \<longrightarrow> safe (proc_declaration n s))
   \<and> (\<forall>s. fits 5 n s \<longrightarrow> safe (statement n s))
   \<and> (\<forall>s. fits 5 n s \<longrightarrow> safe (statement_loop n s))
   \<and> (\<forall>s. fits 4 n s \<longrightarrow> safe (condition n s))
   \<and> (\<forall>s. fits 3 n s \<longrightarrow> safe (expression n s))
   \<and> (\<forall>s opr. fits 3 n s \<longrightarrow> safe (expression_loop n opr s))
   \<and> (\<forall>s. fits 2 n s \<longrightarrow> safe (term n s))
   \<and> (\<forall>s opr. fits 2 n s \<longrightarrow> safe (term_loop n opr s))
   \<and> (\<forall>s. fits 1 n s \<longrightarrow> safe (factor n s))"
proof (induction n)
  case 0
  show ?case by (simp add: fits_def)
next
  case (Suc n)
  then have b: "\<And>s. fits 7 n s \<Longrightarrow> safe (block n s)"
    and p: "\<And>s. fits 6 n s \<Longrightarrow> safe (proc_declaration n s)"
    and st: "\<And>s. fits 5 n s \<Longrightarrow> safe (statement n s)"
    and sl: "\<And>s. fits 5 n s \<Longrightarrow> safe (statement_loop n s)"
    and c: "\<And>s. fits 4 n s \<Longrightarrow> safe (condition n s)"
    and e: "\<And>s. fits 3 n s \<Longrightarrow> safe (expression n s)"
    and el: "\<And>s opr. fits 3 n s \<Longrightarrow> safe (expression_loop n opr s)"
    and t: "\<And>s. fits 2 n s \<Longrightarrow> safe (term n s)"
    and tl: "\<And>s opr. fits 2 n s \<Longrightarrow> safe (term_loop n opr s)"
    and f: "\<And>s. fits 1 n s \<Longrightarrow> safe (factor n s)"
    by simp_all
  have 1: "safe (block (Suc n) s)" if h: "fits 7 (Suc n) s" for s
  proof -
    have p': "safe (proc_declaration n u)" if "later s u" for u
      using fits_later [OF h that, of 6] by (simp add: p)
    have s': "safe (statement n u)" if "later s u" for u
      using fits_later [OF h that, of 5] by (simp add: st)
    show ?thesis
      unfolding block.simps
      by (auto intro!: safe_steps p' s' split: if_splits
          dest!: emit_tokens declarations_later productions_later(2)
          simp: later_def simp del: const_declaration.simps var_declaration.simps)
  qed
  have 2: "safe (proc_declaration (Suc n) s)" if h: "fits 6 (Suc n) s" for s
  proof -
    have b': "safe (block n u)" if "consumed s u" for u
      using fits_consumed [OF h that, of 7] by (simp add: b)
    have p': "safe (proc_declaration n u)" if "consumed s u" for u
      using fits_consumed [OF h that, of 6] by (simp add: p)
    show ?thesis
      unfolding proc_declaration.simps
      by (auto intro!: safe_steps b' p' dest!: productions_later(1)
          simp: Let_def malloc_Symbol_def heap_upd_def addSymbol_def nextToken_def
            later_def consumed_def)
  qed
  have 3: "safe (statement (Suc n) s)" if h: "fits 5 (Suc n) s" for s
  proof -
    have e': "safe (expression n u)" if "later s u" for u
      using fits_later [OF h that, of 3] by (simp add: e)
    have c': "safe (condition n u)" if "later s u" for u
      using fits_later [OF h that, of 4] by (simp add: c)
    have s': "safe (statement n u)" if "consumed s u" for u
      using fits_consumed [OF h that, of 5] by (simp add: st)
    have l': "safe (statement_loop n u)" if "consumed s u" for u
      using fits_consumed [OF h that, of 5] by (simp add: sl)
    show ?thesis
      unfolding statement.simps
      by (simp add: safe_statement_ident [OF e']
          safe_statement_begin [OF _ s' l' productions_later(3)]
          safe_statement_if [OF _ c' s' productions_later(5) productions_later(3)]
          safe_statement_while [OF _ c' s' productions_later(5)])
  qed
  have 4: "safe (statement_loop (Suc n) s)" if h: "fits 5 (Suc n) s" for s
  proof -
    have s': "safe (statement n u)" if "consumed s u" for u
      using fits_consumed [OF h that, of 5] by (simp add: st)
    have l': "safe (statement_loop n u)" if "consumed s u" for u
      using fits_consumed [OF h that, of 5] by (simp add: sl)
    show ?thesis
      unfolding statement_loop.simps
      by (auto intro!: safe_steps s' l' dest!: productions_later(3)
          simp: later_def consumed_def)
  qed
  have 5: "safe (condition (Suc n) s)" if h: "fits 4 (Suc n) s" for s
  proof -
    have e': "safe (expression n u)" if "later s u" for u
      using fits_later [OF h that, of 3] by (simp add: e)
    show ?thesis
      unfolding condition.simps
      by (rule safe_condition_body [OF e' productions_later(6)])
  qed
  have 6: "safe (expression (Suc n) s)" if h: "fits 3 (Suc n) s" for s
  proof -
    have t': "safe (term n u)" if "later s u" for u
      using fits_later [OF h that, of 2] by (simp add: t)
    have l': "safe (expression_loop n opr u)" if "consumed s u" for u opr
      using fits_consumed [OF h that, of 3] by (simp add: el)
    show ?thesis
      unfolding expression.simps
      by (rule safe_expression_body [OF t' l' progress_term])
  qed
  have 7: "safe (expression_loop (Suc n) opr s)" if h: "fits 3 (Suc n) s" for s opr
  proof -
    have t': "safe (term n u)" if "later s u" for u
      using fits_later [OF h that, of 2] by (simp add: t)
    have l': "safe (expression_loop n opr' u)" if "consumed (nextToken s) v" "later v u" for u v opr'
      using fits_consumed [OF h later_consumed [OF later_nextToken consumed_later [OF that]], of 3]
      by (simp add: el)
    show ?thesis
      unfolding expression_loop.simps
      by (auto intro!: safe_steps t' intro: l'
          dest!: progress_term emit_later intro: consumed_later)
  qed
  have 8: "safe (term (Suc n) s)" if h: "fits 2 (Suc n) s" for s
  proof -
    have f': "safe (factor n s)"
      using fits_later [OF h later_refl, of 1] by (simp add: f)
    have l': "safe (term_loop n opr u)" if "consumed s u" for u opr
      using fits_consumed [OF h that, of 2] by (simp add: tl)
    show ?thesis
      unfolding "term.simps" Let_def
      by (auto intro!: safe_steps f' l' dest!: progress_factor)
  qed
  have 9: "safe (term_loop (Suc n) opr s)" if h: "fits 2 (Suc n) s" for s opr
  proof -
    have f': "safe (factor n u)" if "later s u" for u
      using fits_later [OF h that, of 1] by (simp add: f)
    have l': "safe (term_loop n opr' u)" if "consumed (nextToken s) v" "later v u" for u v opr'
      using fits_consumed [OF h later_consumed [OF later_nextToken consumed_later [OF that]], of 2]
      by (simp add: tl)
    show ?thesis
      unfolding term_loop.simps
      by (auto intro!: safe_steps f' intro: l'
          dest!: progress_factor emit_later intro: consumed_later)
  qed
  have 10: "safe (factor (Suc n) s)" if h: "fits 1 (Suc n) s" for s
  proof -
    have e': "safe (expression n u)" if "consumed s u" for u
      using fits_consumed [OF h that, of 3] by (simp add: e)
    show ?thesis
      unfolding factor.simps by (rule safe_factor_body [OF e'])
  qed
  show ?case using 1 2 3 4 5 6 7 8 9 10 by blast
qed

text \<open>
  The depth bound that \<^verbatim>\<open>codeGenerator\<close> gives to \<open>program\<close> is never used up: every
  result of the model is a result of the source, which returns an error code, exits in
  \<^verbatim>\<open>emit\<close> or dereferences a null pointer.
\<close>

theorem codeGenerator_never_out_of_fuel: "codeGenerator toks g \<noteq> Inl Out_of_fuel"
proof -
  have "fits 7 (fuel_for toks) (codeGenerator_entry toks g)"
    by (simp add: fits_def fuel_for_def codeGenerator_entry_def rem_tokens_def)
  then have "safe (block (fuel_for toks) (codeGenerator_entry toks g))"
    using enough_fuel by blast
  then have "safe (program (fuel_for toks) (codeGenerator_entry toks g))"
    unfolding program_def by (auto intro!: safe_steps)
  then show ?thesis
    by (auto simp: codeGenerator_def safe_def split: sum.splits)
qed

section \<open>No write past the end of the code array\<close>

lemma bounded_follows: "follows s t \<Longrightarrow> bounded s \<longrightarrow> bounded t"
  by (auto simp: follows_def bounded_def)

lemma sound_bounded: "sound f \<Longrightarrow> f s = Inr (e, s') \<Longrightarrow> bounded s \<longrightarrow> bounded s'"
  using bounded_follows [OF inv_follows [OF soundD]] by blast

lemma productions_bounded:
  "block n s = Inr (e, s') \<Longrightarrow> bounded s \<longrightarrow> bounded s'"
  "proc_declaration n s = Inr (e, s') \<Longrightarrow> bounded s \<longrightarrow> bounded s'"
  "statement n s = Inr (e, s') \<Longrightarrow> bounded s \<longrightarrow> bounded s'"
  "statement_loop n s = Inr (e, s') \<Longrightarrow> bounded s \<longrightarrow> bounded s'"
  "condition n s = Inr (e, s') \<Longrightarrow> bounded s \<longrightarrow> bounded s'"
  "expression n s = Inr (e, s') \<Longrightarrow> bounded s \<longrightarrow> bounded s'"
  "expression_loop n opr s = Inr (e, s') \<Longrightarrow> bounded s \<longrightarrow> bounded s'"
  "term n s = Inr (e, s') \<Longrightarrow> bounded s \<longrightarrow> bounded s'"
  "term_loop n opr s = Inr (e, s') \<Longrightarrow> bounded s \<longrightarrow> bounded s'"
  "factor n s = Inr (e, s') \<Longrightarrow> bounded s \<longrightarrow> bounded s'"
proof -
  note a = sound_productions [of n]
  have b: "sound (block n)" using a by (blast intro: sound_all_sound)
  show "block n s = Inr (e, s') \<Longrightarrow> bounded s \<longrightarrow> bounded s'" using b by (rule sound_bounded)
  show "proc_declaration n s = Inr (e, s') \<Longrightarrow> bounded s \<longrightarrow> bounded s'"
    using a by (blast intro: sound_bounded [rule_format])
  show "statement n s = Inr (e, s') \<Longrightarrow> bounded s \<longrightarrow> bounded s'"
    using a by (blast intro: sound_bounded [rule_format])
  show "statement_loop n s = Inr (e, s') \<Longrightarrow> bounded s \<longrightarrow> bounded s'"
    using a by (blast intro: sound_bounded [rule_format])
  show "condition n s = Inr (e, s') \<Longrightarrow> bounded s \<longrightarrow> bounded s'"
    using a by (blast intro: sound_bounded [rule_format])
  show "expression n s = Inr (e, s') \<Longrightarrow> bounded s \<longrightarrow> bounded s'"
    using a by (blast intro: sound_bounded [rule_format])
  show "expression_loop n opr s = Inr (e, s') \<Longrightarrow> bounded s \<longrightarrow> bounded s'"
    using a by (blast intro: sound_bounded [rule_format])
  show "term n s = Inr (e, s') \<Longrightarrow> bounded s \<longrightarrow> bounded s'"
    using a by (blast intro: sound_bounded [rule_format])
  show "term_loop n opr s = Inr (e, s') \<Longrightarrow> bounded s \<longrightarrow> bounded s'"
    using a by (blast intro: sound_bounded [rule_format])
  show "factor n s = Inr (e, s') \<Longrightarrow> bounded s \<longrightarrow> bounded s'"
    using a by (blast intro: sound_bounded [rule_format])
qed

lemma declarations_bounded:
  "const_declaration s = Inr (e, s') \<Longrightarrow> bounded s \<longrightarrow> bounded s'"
  "var_declaration s = Inr (e, s') \<Longrightarrow> bounded s \<longrightarrow> bounded s'"
  by (rule sound_bounded [OF sound_const_declaration], assumption)
     (rule sound_bounded [OF sound_var_declaration], assumption)

lemma bounded_simps [simp]:
  "bounded (nextToken s) = bounded s"
  "bounded (backpatch a v s) = bounded s"
  "bounded (heap_upd p h s) = bounded s"
  "bounded (addSymbol y s) = bounded s"
  "bounded (snd (malloc_Symbol s)) = bounded s"
  by (simp_all add: bounded_def nextToken_def backpatch_def heap_upd_def addSymbol_def
      malloc_Symbol_def)

lemma emit_bounded: "emit OP R L M s = Inr (a, t) \<Longrightarrow> bounded t"
  by (auto simp: bounded_def emit_def MAX_CODE_LENGTH_def split: if_splits)

lemma in_bounds_simps [simp]:
  "in_bounds (Inr x)"
  "in_bounds (Inl e) \<longleftrightarrow> e \<noteq> Out_of_bounds"
  by (auto simp: in_bounds_def)

lemma in_bounds_emit: "bounded s \<Longrightarrow> in_bounds (emit OP R L M s)"
  by (auto simp: in_bounds_def emit_def bounded_def MAX_CODE_LENGTH_def)

lemma in_bounds_on_ok:
  "in_bounds x \<Longrightarrow> (\<And>s1. x = Inr (0, s1) \<Longrightarrow> in_bounds (k s1)) \<Longrightarrow> in_bounds (on_ok x k)"
  by (auto simp: in_bounds_def on_ok_def split: sum.splits)

lemma in_bounds_bind:
  "in_bounds x \<Longrightarrow> (\<And>a s1. x = Inr (a, s1) \<Longrightarrow> in_bounds (k a s1))
    \<Longrightarrow> in_bounds (bind_r x k)"
  by (auto simp: in_bounds_def bind_r_def split: sum.splits)

lemmas in_bounds_steps = in_bounds_on_ok in_bounds_bind in_bounds_emit

lemma in_bounds_statement_ident:
  assumes "bounded s" "\<And>t. bounded t \<Longrightarrow> in_bounds (expr t)"
  shows "in_bounds (statement_ident expr s)"
  using assms(1) unfolding statement_ident_def Let_def
  by (auto intro!: in_bounds_steps assms(2) split: option.splits)

lemma in_bounds_statement_call: "bounded s \<Longrightarrow> in_bounds (statement_call s)"
  unfolding statement_call_def Let_def
  by (auto intro!: in_bounds_steps split: option.splits)

lemma in_bounds_statement_write: "bounded s \<Longrightarrow> in_bounds (statement_write s)"
  unfolding statement_write_def Let_def
  by (auto intro!: in_bounds_steps split: option.splits dest!: emit_bounded)

lemma in_bounds_statement_read: "bounded s \<Longrightarrow> in_bounds (statement_read s)"
  unfolding statement_read_def Let_def
  by (auto intro!: in_bounds_steps split: option.splits dest!: emit_bounded)

lemma in_bounds_statement_begin:
  assumes "bounded s"
    and "\<And>t. bounded t \<Longrightarrow> in_bounds (stmt t)"
    and "\<And>t. bounded t \<Longrightarrow> in_bounds (loop t)"
    and "\<And>t e t'. stmt t = Inr (e, t') \<Longrightarrow> bounded t \<longrightarrow> bounded t'"
  shows "in_bounds (statement_begin stmt loop s)"
  using assms(1) unfolding statement_begin_def Let_def
  by (auto intro!: in_bounds_steps assms(2,3) dest!: assms(4))

lemma in_bounds_statement_if:
  assumes "bounded s"
    and "\<And>t. bounded t \<Longrightarrow> in_bounds (cond t)"
    and "\<And>t. bounded t \<Longrightarrow> in_bounds (stmt t)"
    and "\<And>t e t'. cond t = Inr (e, t') \<Longrightarrow> bounded t \<longrightarrow> bounded t'"
    and "\<And>t e t'. stmt t = Inr (e, t') \<Longrightarrow> bounded t \<longrightarrow> bounded t'"
  shows "in_bounds (statement_if cond stmt s)"
  using assms(1) unfolding statement_if_def Let_def
  by (auto intro!: in_bounds_steps assms(2,3) dest!: assms(4,5) emit_bounded)

lemma in_bounds_statement_while:
  assumes "bounded s"
    and "\<And>t. bounded t \<Longrightarrow> in_bounds (cond t)"
    and "\<And>t. bounded t \<Longrightarrow> in_bounds (stmt t)"
    and "\<And>t e t'. cond t = Inr (e, t') \<Longrightarrow> bounded t \<longrightarrow> bounded t'"
    and "\<And>t e t'. stmt t = Inr (e, t') \<Longrightarrow> bounded t \<longrightarrow> bounded t'"
  shows "in_bounds (statement_while cond stmt s)"
  using assms(1) unfolding statement_while_def Let_def
  by (auto intro!: in_bounds_steps assms(2,3) dest!: assms(4,5) emit_bounded)

lemma in_bounds_condition_relop: "bounded s \<Longrightarrow> in_bounds (condition_relop s)"
  unfolding condition_relop_def Let_def
  by (auto intro!: in_bounds_steps)

lemma condition_relop_bounded: "condition_relop s = Inr (e, t) \<Longrightarrow> bounded s \<longrightarrow> bounded t"
  unfolding condition_relop_def Let_def
  by (auto elim!: bind_rE dest!: emit_bounded split: if_splits)

lemma in_bounds_condition_body:
  assumes "bounded s"
    and "\<And>t. bounded t \<Longrightarrow> in_bounds (expr t)"
    and "\<And>t e t'. expr t = Inr (e, t') \<Longrightarrow> bounded t \<longrightarrow> bounded t'"
  shows "in_bounds (condition_body expr s)"
  using assms(1) unfolding condition_body_def
  by (auto intro!: in_bounds_steps assms(2) in_bounds_condition_relop elim!: on_okE bind_rE
      dest!: assms(3) emit_bounded condition_relop_bounded)

lemma in_bounds_expression_body:
  assumes "bounded s"
    and "\<And>t. bounded t \<Longrightarrow> in_bounds (trm t)"
    and "\<And>t opr. bounded t \<Longrightarrow> in_bounds (loop opr t)"
    and "\<And>t e t'. trm t = Inr (e, t') \<Longrightarrow> bounded t \<longrightarrow> bounded t'"
  shows "in_bounds (expression_body trm loop s)"
  using assms(1) unfolding expression_body_def Let_def
  by (auto intro!: in_bounds_steps assms(2,3) elim!: on_okE bind_rE
      dest!: assms(4) emit_bounded)

lemma in_bounds_factor_body:
  assumes "bounded s" "\<And>t. bounded t \<Longrightarrow> in_bounds (expr t)"
  shows "in_bounds (factor_body expr s)"
  using assms(1) unfolding factor_body_def
  by (auto intro!: in_bounds_steps assms(2) split: option.splits)

lemma in_bounds_if:
  "(c \<Longrightarrow> in_bounds a) \<Longrightarrow> (\<not> c \<Longrightarrow> in_bounds b) \<Longrightarrow> in_bounds (if c then a else b)"
  by simp

lemma in_bounds_const_declaration: "in_bounds (const_declaration s)"
proof (induction s rule: const_declaration.induct)
  case (1 s)
  note IH = "1.IH" [OF prod.collapse refl _ refl _ refl _ refl refl]
  show ?case
    apply (subst const_declaration.simps)
    apply (simp only: case_prod_beta Let_def)
    apply (intro in_bounds_if in_bounds_simps)
    apply (rule IH; assumption)
    done
qed

lemma in_bounds_var_declaration: "bounded s \<Longrightarrow> in_bounds (var_declaration s)"
proof (induction s rule: var_declaration.induct)
  case (1 s)
  note IH = "1.IH" [OF prod.collapse refl _ refl _ prod.collapse refl]
  from "1.prems" show ?case
    apply (subst var_declaration.simps)
    apply (simp only: bind_r_def [symmetric])
    apply (simp only: case_prod_beta Let_def)
    apply (intro in_bounds_if in_bounds_bind in_bounds_simps in_bounds_emit)
    apply simp
    subgoal premises p for a t'
      using IH [OF p(2), of "(a, t')"] p(3-) emit_bounded [of INC 0 0 1 _ a t'] by simp
    done
qed

lemma enough_room:
  "(\<forall>s. bounded s \<longrightarrow> in_bounds (block n s))
   \<and> (\<forall>s. bounded s \<longrightarrow> in_bounds (proc_declaration n s))
   \<and> (\<forall>s. bounded s \<longrightarrow> in_bounds (statement n s))
   \<and> (\<forall>s. bounded s \<longrightarrow> in_bounds (statement_loop n s))
   \<and> (\<forall>s. bounded s \<longrightarrow> in_bounds (condition n s))
   \<and> (\<forall>s. bounded s \<longrightarrow> in_bounds (expression n s))
   \<and> (\<forall>s opr. bounded s \<longrightarrow> in_bounds (expression_loop n opr s))
   \<and> (\<forall>s. bounded s \<longrightarrow> in_bounds (term n s))
   \<and> (\<forall>s opr. bounded s \<longrightarrow> in_bounds (term_loop n opr s))
   \<and> (\<forall>s. bounded s \<longrightarrow> in_bounds (factor n s))"
proof (induction n)
  case 0
  show ?case by simp
next
  case (Suc n)
  then have b: "\<And>s. bounded s \<Longrightarrow> in_bounds (block n s)"
    and p: "\<And>s. bounded s \<Longrightarrow> in_bounds (proc_declaration n s)"
    and st: "\<And>s. bounded s \<Longrightarrow> in_bounds (statement n s)"
    and sl: "\<And>s. bounded s \<Longrightarrow> in_bounds (statement_loop n s)"
    and c: "\<And>s. bounded s \<Longrightarrow> in_bounds (condition n s)"
    and e: "\<And>s. bounded s \<Longrightarrow> in_bounds (expression n s)"
    and el: "\<And>s opr. bounded s \<Longrightarrow> in_bounds (expression_loop n opr s)"
    and t: "\<And>s. bounded s \<Longrightarrow> in_bounds (term n s)"
    and tl: "\<And>s opr. bounded s \<Longrightarrow> in_bounds (term_loop n opr s)"
    and f: "\<And>s. bounded s \<Longrightarrow> in_bounds (factor n s)"
    by simp_all
  have 1: "in_bounds (block (Suc n) s)" if h: "bounded s" for s
    using h unfolding block.simps
    by (auto intro!: in_bounds_steps p st in_bounds_const_declaration
        in_bounds_var_declaration split: if_splits
        dest!: emit_bounded declarations_bounded productions_bounded(2,3)
        simp del: const_declaration.simps var_declaration.simps)
  have 2: "in_bounds (proc_declaration (Suc n) s)" if h: "bounded s" for s
    using h unfolding proc_declaration.simps
    by (auto intro!: in_bounds_steps b p dest!: productions_bounded(1)
        simp: Let_def malloc_Symbol_def heap_upd_def addSymbol_def nextToken_def bounded_def)
  have 3: "in_bounds (statement (Suc n) s)" if h: "bounded s" for s
    unfolding statement.simps
    by (simp add: h in_bounds_statement_ident [OF h e]
        in_bounds_statement_begin [OF h st sl productions_bounded(3)]
        in_bounds_statement_if [OF h c st productions_bounded(5) productions_bounded(3)]
        in_bounds_statement_while [OF h c st productions_bounded(5) productions_bounded(3)]
        in_bounds_statement_call in_bounds_statement_write in_bounds_statement_read)
  have 4: "in_bounds (statement_loop (Suc n) s)" if h: "bounded s" for s
    using h unfolding statement_loop.simps
    by (auto intro!: in_bounds_steps st sl dest!: productions_bounded(3))
  have 5: "in_bounds (condition (Suc n) s)" if h: "bounded s" for s
    unfolding condition.simps
    by (rule in_bounds_condition_body [OF h e productions_bounded(6)])
  have 6: "in_bounds (expression (Suc n) s)" if h: "bounded s" for s
    unfolding expression.simps
    by (rule in_bounds_expression_body [OF h t el productions_bounded(8)])
  have 7: "in_bounds (expression_loop (Suc n) opr s)" if h: "bounded s" for s opr
    using h unfolding expression_loop.simps
    by (auto intro!: in_bounds_steps t el dest!: productions_bounded(8) emit_bounded)
  have 8: "in_bounds (term (Suc n) s)" if h: "bounded s" for s
    using h unfolding "term.simps" Let_def
    by (auto intro!: in_bounds_steps f tl dest!: productions_bounded(10))
  have 9: "in_bounds (term_loop (Suc n) opr s)" if h: "bounded s" for s opr
    using h unfolding term_loop.simps
    by (auto intro!: in_bounds_steps f tl dest!: productions_bounded(10) emit_bounded)
  have 10: "in_bounds (factor (Suc n) s)" if h: "bounded s" for s
    unfolding factor.simps by (rule in_bounds_factor_body [OF h e])
  show ?case using 1 2 3 4 5 6 7 8 9 10 by blast
qed

text \<open>
  No run of \<^verbatim>\<open>codeGenerator\<close> writes past the end of \<^verbatim>\<open>vmCode\<close>: the index starts at 0
  and \<^verbatim>\<open>emit\<close> exits when it has reached the length.
\<close>

theorem codeGenerator_never_out_of_bounds: "codeGenerator toks g \<noteq> Inl Out_of_bounds"
proof -
  let ?s = "codeGenerator_entry toks g"
  have h: "bounded ?s"
    by (simp add: bounded_def codeGenerator_entry_def)
  then have "in_bounds (block (fuel_for toks) ?s)"
    using enough_room by blast
  then have "in_bounds (program (fuel_for toks) ?s)"
    using h unfolding program_def
    by (auto intro!: in_bounds_steps dest!: productions_bounded(1))
  then show ?thesis
    by (auto simp: codeGenerator_def in_bounds_def split: sum.splits)
qed

theorem codeGenerator_faults:
  "codeGenerator toks g = Inl e \<Longrightarrow> e = Process_exit \<or> e = Null_dereference"
  using codeGenerator_never_out_of_fuel [of toks g] codeGenerator_never_out_of_bounds [of toks g]
  by (cases e) auto

end
